theory Spec2Isabelle
  imports Main "HOL-Library.Word" "HOL-Library.Sublist"
begin

section \<open>Python values, strings and bytes\<close>

text \<open>
  A Python \<^verbatim>\<open>str\<close> is a sequence of Unicode code points, modelled as a list of
  natural numbers; \<^verbatim>\<open>bytes\<close>, \<^verbatim>\<open>bytearray\<close> and a byte-format
  \<^verbatim>\<open>memoryview\<close> are lists of 8-bit words. Printable ASCII text is written
  \<open>str ''...''\<close>; the control characters and the backslash get names.
\<close>

type_synonym pystr = "nat list"
type_synonym byte = "8 word"
type_synonym bytes = "byte list"

definition str :: "string \<Rightarrow> pystr" where
  "str s = map of_char s"

abbreviation (input) NUL :: nat where "NUL \<equiv> 0"
abbreviation (input) BS :: nat where "BS \<equiv> 8"
abbreviation (input) TAB :: nat where "TAB \<equiv> 9"
abbreviation (input) LF :: nat where "LF \<equiv> 10"
abbreviation (input) VT :: nat where "VT \<equiv> 11"
abbreviation (input) FF :: nat where "FF \<equiv> 12"
abbreviation (input) CR :: nat where "CR \<equiv> 13"
abbreviation (input) DQUOTE :: nat where "DQUOTE \<equiv> 34"
abbreviation (input) BACKSLASH :: nat where "BACKSLASH \<equiv> 92"

text \<open>
  The exceptions the code raises (or lets a built-in raise). \<open>NotImplementedError\<close>
  carries the name of the field it reports. \<open>Unmodelled\<close> is not a Python exception: it
  marks the one place where the model does not know the text Python would produce (the
  \<^verbatim>\<open>repr\<close> of a bytes, memoryview or dict object inside an f-string).
\<close>

datatype error =
    TypeError
  | ValueError
  | UnicodeEncodeError
  | KeyError
  | FieldDoesNotExist
  | BufferError
  | NotImplementedError pystr
  | Unmodelled

text \<open>
  The runtime classes the encoders test with \<^verbatim>\<open>isinstance\<close>. \<^verbatim>\<open>bool\<close> is a subclass
  of \<^verbatim>\<open>int\<close> and \<^verbatim>\<open>datetime\<close> is a subclass of \<^verbatim>\<open>date\<close>.
\<close>

datatype pyclass =
    C_NoneType | C_bool | C_int | C_float | C_str | C_bytes | C_memoryview | C_dict
  | C_date | C_datetime | C_Decimal | C_timedelta | C_time | C_UUID | C_Range
  | C_other string

text \<open>
  A value is \<^verbatim>\<open>None\<close>, a bool, an int (unbounded), a str, a bytes object, a
  memoryview, a dict (its items in insertion order), a psycopg2
  \<^verbatim>\<open>Range\<close> with its two bounds, or any other object, given by its class and by the text
  \<^verbatim>\<open>str()\<close> returns for it (floats, dates, decimals, UUIDs, ...: their text form is the
  wire driver's business, not this module's). A memoryview is given by its items along
  the first dimension, each by its bytes (one byte for the format B, two for H, a whole
  row for a shape of two dimensions), and by whether it is C-contiguous:
  \<^verbatim>\<open>memoryview(b)[::2]\<close> is not.
\<close>

datatype pyval =
    PNone
  | PBool bool
  | PInt int
  | PStr pystr
  | PBytes bytes
  | PMemoryview "bytes list" bool
  | PDict "(pyval \<times> pyval) list"
  | PRange pyval pyval pystr
  | PObj pyclass pystr

fun type_of :: "pyval \<Rightarrow> pyclass" where
  "type_of PNone = C_NoneType"
| "type_of (PBool _) = C_bool"
| "type_of (PInt _) = C_int"
| "type_of (PStr _) = C_str"
| "type_of (PBytes _) = C_bytes"
| "type_of (PMemoryview _ _) = C_memoryview"
| "type_of (PDict _) = C_dict"
| "type_of (PRange _ _ _) = C_Range"
| "type_of (PObj c _) = c"

definition issubclass :: "pyclass \<Rightarrow> pyclass \<Rightarrow> bool" where
  "issubclass c d \<longleftrightarrow> c = d \<or> (c = C_bool \<and> d = C_int) \<or> (c = C_datetime \<and> d = C_date)"

definition isinstance :: "pyval \<Rightarrow> pyclass \<Rightarrow> bool" where
  "isinstance v c \<longleftrightarrow> issubclass (type_of v) c"

subsection \<open>Built-in string operations\<close>

text \<open>
  \<^verbatim>\<open>s.replace(old, new)\<close>: every non-overlapping occurrence of \<open>old\<close>, found from the
  left, becomes \<open>new\<close>; an empty \<open>old\<close> matches before every character and at the end.
\<close>

fun replace :: "'a list \<Rightarrow> 'a list \<Rightarrow> 'a list \<Rightarrow> 'a list" where
  "replace [] old new = (if old = [] then new else [])"
| "replace (c # cs) old new =
     (if old = [] then new @ c # replace cs old new
      else if prefix old (c # cs) then new @ replace (drop (length old) (c # cs)) old new
      else c # replace cs old new)"

text \<open>\<^verbatim>\<open>sep.join(parts)\<close>.\<close>

fun join :: "'a list \<Rightarrow> 'a list list \<Rightarrow> 'a list" where
  "join sep [] = []"
| "join sep [x] = x"
| "join sep (x # y # ys) = x @ sep @ join sep (y # ys)"

text \<open>\<^verbatim>\<open>str(n)\<close> for an int: decimal digits, with a minus sign when negative.\<close>

fun digits :: "nat \<Rightarrow> pystr" where
  "digits n = (if n < 10 then [48 + n] else digits (n div 10) @ [48 + n mod 10])"

declare digits.simps [simp del]

definition str_of_int :: "int \<Rightarrow> pystr" where
  "str_of_int i = (if i < 0 then 45 # digits (nat (- i)) else digits (nat i))"

text \<open>
  The text an f-string \<^verbatim>\<open>f'{x}'\<close> produces: a str is itself, an int its digits, a bool
  \<^verbatim>\<open>True\<close>/\<^verbatim>\<open>False\<close>, \<^verbatim>\<open>None\<close> the word None, another object its \<^verbatim>\<open>str()\<close>.
\<close>

fun format_value :: "pyval \<Rightarrow> pystr option" where
  "format_value PNone = Some (str ''None'')"
| "format_value (PBool b) = Some (if b then str ''True'' else str ''False'')"
| "format_value (PInt i) = Some (str_of_int i)"
| "format_value (PStr s) = Some s"
| "format_value (PRange _ _ s) = Some s"
| "format_value (PObj _ s) = Some s"
| "format_value (PBytes _) = None"
| "format_value (PMemoryview _ _) = None"
| "format_value (PDict _) = None"

text \<open>
  \<^verbatim>\<open>v.hex()\<close> gives a str and \<^verbatim>\<open>binascii.b2a_hex(v)\<close> gives bytes: two lower-case
  hexadecimal digits for every byte.
\<close>

definition hexdigit :: "nat \<Rightarrow> nat" where
  "hexdigit n = (if n < 10 then 48 + n else 87 + n)"

definition hex :: "bytes \<Rightarrow> pystr" where
  "hex v = concat (map (\<lambda>b. [hexdigit (unat b div 16), hexdigit (unat b mod 16)]) v)"

definition b2a_hex :: "bytes \<Rightarrow> bytes" where
  "b2a_hex v = concat (map (\<lambda>b. [of_nat (hexdigit (unat b div 16)), of_nat (hexdigit (unat b mod 16))]) v)"

text \<open>
  On a bytes object or a memoryview: \<^verbatim>\<open>len(v)\<close> counts the bytes of a bytes object and
  the items of a memoryview; \<^verbatim>\<open>v.hex()\<close> is the hex text of all its bytes;
  \<^verbatim>\<open>binascii.b2a_hex(v)\<close> asks for a contiguous buffer and raises BufferError on a
  memoryview that is not C-contiguous; \<^verbatim>\<open>v[lo:hi]\<close> selects bytes or items, and the slice
  of a memoryview is C-contiguous when the memoryview is, or when the slice holds exactly
  one item. On anything else \<^verbatim>\<open>len\<close>, \<^verbatim>\<open>hex\<close> and \<^verbatim>\<open>b2a_hex\<close> raise (\<open>None\<close>, or
  TypeError).
\<close>

fun py_len :: "pyval \<Rightarrow> nat option" where
  "py_len (PBytes b) = Some (length b)"
| "py_len (PMemoryview items c) = Some (length items)"
| "py_len _ = None"

fun tobytes :: "pyval \<Rightarrow> bytes option" where
  "tobytes (PBytes b) = Some b"
| "tobytes (PMemoryview items c) = Some (concat items)"
| "tobytes _ = None"

fun hex_method :: "pyval \<Rightarrow> pystr option" where
  "hex_method v = map_option hex (tobytes v)"

fun b2a_hex_buffer :: "pyval \<Rightarrow> error + bytes" where
  "b2a_hex_buffer (PBytes b) = Inr (b2a_hex b)"
| "b2a_hex_buffer (PMemoryview items c) =
     (if c then Inr (b2a_hex (concat items)) else Inl BufferError)"
| "b2a_hex_buffer _ = Inl TypeError"

fun getslice :: "pyval \<Rightarrow> nat \<Rightarrow> nat \<Rightarrow> pyval" where
  "getslice (PBytes b) lo hi = PBytes (take (hi - lo) (drop lo b))"
| "getslice (PMemoryview items c) lo hi =
     PMemoryview (take (hi - lo) (drop lo items))
       (c \<or> length (take (hi - lo) (drop lo items)) = 1)"
| "getslice v lo hi = v"

section \<open>Escaping primitives and encoders\<close>

text \<open>\<^verbatim>\<open>NULL = '\\N'\<close>, \<^verbatim>\<open>LAZY_PLACEHOLDER = '\x00'\<close>, \<^verbatim>\<open>LAZY_PLACEHOLDER_BYTE = b'\x00'\<close>.\<close>

definition NULL :: pystr where
  "NULL = [BACKSLASH, 78]"

definition LAZY_PLACEHOLDER :: pystr where
  "LAZY_PLACEHOLDER = [NUL]"

definition LAZY_PLACEHOLDER_BYTE :: byte where
  "LAZY_PLACEHOLDER_BYTE = 0"

definition text_escape :: "pystr \<Rightarrow> pystr" where
  "text_escape v =
     replace (replace (replace (replace (replace (replace (replace v
       [BACKSLASH] [BACKSLASH, BACKSLASH])
       [BS] [BACKSLASH, 98])
       [FF] [BACKSLASH, 102])
       [LF] [BACKSLASH, 110])
       [CR] [BACKSLASH, 114])
       [TAB] [BACKSLASH, 116])
       [VT] [BACKSLASH, 118]"


text \<open>
  A lazy entry is \<^verbatim>\<open>(writer, byte_object)\<close>. A writer is given the file and the
  object and writes to the file; the model returns the list of its \<^verbatim>\<open>f.write\<close> calls
  and the exception that stopped it, if any. An encoder takes the value and the lazy list
  and returns a value (or raises); the list it may have appended to is returned with the
  value.
\<close>

type_synonym writer = "pyval \<Rightarrow> bytes list \<times> error option"
type_synonym lazy = "(writer \<times> pyval) list"
type_synonym encoder = "pyval \<Rightarrow> lazy \<Rightarrow> error + (pyval \<times> lazy)"

fun Int_enc :: encoder where
  "Int_enc v lazy = (if isinstance v C_int then Inr (v, lazy) else Inl TypeError)"

fun IntOrNone :: encoder where
  "IntOrNone v lazy =
     (if v = PNone then Inr (PStr NULL, lazy)
      else if isinstance v C_int then Inr (v, lazy)
      else Inl TypeError)"

text \<open>
  \<^verbatim>\<open>_lazy_binary(f, v)\<close>: one write of the whole hex text when \<^verbatim>\<open>len(v)\<close> is at most
  65536, else one write per slice of 65536 bytes or items; \<^verbatim>\<open>b2a_hex\<close> may raise, and
  what was written before stays written.
\<close>

function lazy_binary_loop :: "pyval \<Rightarrow> nat \<Rightarrow> nat \<Rightarrow> bytes list \<times> error option" where
  "lazy_binary_loop v length_v byte_pos =
     (if byte_pos < length_v
      then (case b2a_hex_buffer (getslice v byte_pos (byte_pos + 65536)) of
              Inl e \<Rightarrow> ([], Some e)
            | Inr h \<Rightarrow>
                (case lazy_binary_loop v length_v (byte_pos + 65536) of
                   (ws, e) \<Rightarrow> (h # ws, e)))
      else ([], None))"
  by pat_completeness auto
termination
  by (relation "measure (\<lambda>(v, length_v, byte_pos). length_v - byte_pos)") auto

declare lazy_binary_loop.simps [simp del]

definition lazy_binary :: writer where
  "lazy_binary v =
     (case py_len v of
        None \<Rightarrow> ([], Some TypeError)
      | Some length_v \<Rightarrow>
          if length_v \<le> 65536
          then (case b2a_hex_buffer v of Inl e \<Rightarrow> ([], Some e) | Inr h \<Rightarrow> ([h], None))
          else lazy_binary_loop v length_v 0)"

text \<open>\<^verbatim>\<open>'\\\\x'\<close> is the three characters backslash, backslash, x.\<close>

definition HEX_PREFIX :: pystr where
  "HEX_PREFIX = [BACKSLASH, BACKSLASH, 120]"

text \<open>
  \<open>Binary\<close> and \<open>BinaryOrNone\<close>: the threshold is tested on \<^verbatim>\<open>len(v)\<close>, the number of
  bytes of a bytes object and of items of a memoryview; the immediate form is the prefix
  and \<^verbatim>\<open>v.hex()\<close>, the hex text of all the bytes; the deferred form is the prefix and
  the placeholder, with the entry \<^verbatim>\<open>(_lazy_binary, v)\<close> appended to the lazy list. The
  last branch of the case stands for an object of these classes that this model gives
  only by its class and text.
\<close>

fun Binary :: encoder where
  "Binary v lazy =
     (if isinstance v C_memoryview \<or> isinstance v C_bytes then
        (case (py_len v, hex_method v) of
           (Some length_v, Some hex_v) \<Rightarrow>
             if length_v > 4096
             then Inr (PStr (HEX_PREFIX @ LAZY_PLACEHOLDER), lazy @ [(lazy_binary, v)])
             else Inr (PStr (HEX_PREFIX @ hex_v), lazy)
         | _ \<Rightarrow> Inl TypeError)
      else Inl TypeError)"

fun BinaryOrNone :: encoder where
  "BinaryOrNone v lazy =
     (if v = PNone then Inr (PStr NULL, lazy)
      else if isinstance v C_memoryview \<or> isinstance v C_bytes then
        (case (py_len v, hex_method v) of
           (Some length_v, Some hex_v) \<Rightarrow>
             if length_v > 4096
             then Inr (PStr (HEX_PREFIX @ LAZY_PLACEHOLDER), lazy @ [(lazy_binary, v)])
             else Inr (PStr (HEX_PREFIX @ hex_v), lazy)
         | _ \<Rightarrow> Inl TypeError)
      else Inl TypeError)"

text \<open>
  The encoders that only test the class and pass the value along:
  \<^verbatim>\<open>if isinstance(v, T): return v\<close>, else TypeError; the \<open>OrNone\<close> form first maps
  \<^verbatim>\<open>None\<close> to \<open>NULL\<close>.
\<close>

definition pass_along :: "pyclass list \<Rightarrow> encoder" where
  "pass_along cs v lazy = (if \<exists>c \<in> set cs. isinstance v c then Inr (v, lazy) else Inl TypeError)"

definition pass_along_or_none :: "pyclass list \<Rightarrow> encoder" where
  "pass_along_or_none cs v lazy =
     (if v = PNone then Inr (PStr NULL, lazy)
      else if \<exists>c \<in> set cs. isinstance v c then Inr (v, lazy)
      else Inl TypeError)"

definition Boolean :: encoder where "Boolean = pass_along [C_bool]"
definition BooleanOrNone :: encoder where "BooleanOrNone = pass_along_or_none [C_bool]"
definition Date :: encoder where "Date = pass_along [C_date]"
definition DateOrNone :: encoder where "DateOrNone = pass_along_or_none [C_date]"
definition Datetime :: encoder where "Datetime = pass_along [C_datetime]"
definition DatetimeOrNone :: encoder where "DatetimeOrNone = pass_along_or_none [C_datetime]"
definition Numeric :: encoder where "Numeric = pass_along [C_Decimal]"
definition NumericOrNone :: encoder where "NumericOrNone = pass_along_or_none [C_Decimal]"
definition Duration :: encoder where "Duration = pass_along [C_timedelta]"
definition DurationOrNone :: encoder where "DurationOrNone = pass_along_or_none [C_timedelta]"
definition Float :: encoder where "Float = pass_along [C_float, C_int]"
definition FloatOrNone :: encoder where "FloatOrNone = pass_along_or_none [C_float, C_int]"
definition Time :: encoder where "Time = pass_along [C_time]"
definition TimeOrNone :: encoder where "TimeOrNone = pass_along_or_none [C_time]"
definition Uuid :: encoder where "Uuid = pass_along [C_UUID]"
definition UuidOrNone :: encoder where "UuidOrNone = pass_along_or_none [C_UUID]"

text \<open>
  \<^verbatim>\<open>json.dumps\<close> is a library function, a parameter of the two JSON encoders here; it
  raises TypeError on a value it cannot serialise.
\<close>

definition Json :: "(pyval \<Rightarrow> error + pystr) \<Rightarrow> encoder" where
  "Json dumps v lazy =
     (case dumps v of Inl e \<Rightarrow> Inl e | Inr s \<Rightarrow> Inr (PStr (text_escape s), lazy))"

definition JsonOrNone :: "(pyval \<Rightarrow> error + pystr) \<Rightarrow> encoder" where
  "JsonOrNone dumps v lazy =
     (if v = PNone then Inr (PStr NULL, lazy)
      else case dumps v of Inl e \<Rightarrow> Inl e | Inr s \<Rightarrow> Inr (PStr (text_escape s), lazy))"

fun Text :: encoder where
  "Text (PStr s) lazy = Inr (PStr (text_escape s), lazy)"
| "Text _ lazy = Inl TypeError"

fun TextOrNone :: encoder where
  "TextOrNone PNone lazy = Inr (PStr NULL, lazy)"
| "TextOrNone (PStr s) lazy = Inr (PStr (text_escape s), lazy)"
| "TextOrNone _ lazy = Inl TypeError"

subsection \<open>Nested types: hstore\<close>

definition quote :: "pystr \<Rightarrow> pystr" where
  "quote v = [DQUOTE] @ replace v [DQUOTE] [BACKSLASH, BACKSLASH, DQUOTE] @ [DQUOTE]"

definition text_escape_nested :: "pystr \<Rightarrow> pystr" where
  "text_escape_nested v =
     replace (replace (replace (replace (replace (replace (replace v
       [BACKSLASH] [BACKSLASH, BACKSLASH, BACKSLASH, BACKSLASH])
       [BS] [BACKSLASH, 98])
       [FF] [BACKSLASH, 102])
       [LF] [BACKSLASH, 110])
       [CR] [BACKSLASH, 114])
       [TAB] [BACKSLASH, 116])
       [VT] [BACKSLASH, 118]"

definition SQL_NULL :: pystr where
  "SQL_NULL = str ''NULL''"

text \<open>
  The loop of \<open>HStore\<close> over \<^verbatim>\<open>v.items()\<close>: the first pair with a key that is not a
  str, or a value that is neither \<^verbatim>\<open>None\<close> nor a str, raises; otherwise the pair's text
  is appended to \<open>parts\<close>.
\<close>

fun hstore_parts :: "(pyval \<times> pyval) list \<Rightarrow> error + pystr list" where
  "hstore_parts [] = Inr []"
| "hstore_parts ((k, v) # items) =
     (case k of
        PStr ks \<Rightarrow>
          (case (case v of PNone \<Rightarrow> Some SQL_NULL
                         | PStr vs \<Rightarrow> Some (quote (text_escape_nested vs))
                         | _ \<Rightarrow> None) of
             None \<Rightarrow> Inl TypeError
           | Some vt \<Rightarrow>
               (case hstore_parts items of
                  Inl e \<Rightarrow> Inl e
                | Inr parts \<Rightarrow> Inr ((quote (text_escape_nested ks) @ str ''=>'' @ vt) # parts)))
      | _ \<Rightarrow> Inl TypeError)"

fun HStore :: encoder where
  "HStore (PDict items) lazy =
     (case hstore_parts items of
        Inl e \<Rightarrow> Inl e
      | Inr parts \<Rightarrow> Inr (PStr (join (str '','') parts), lazy))"
| "HStore _ lazy = Inl TypeError"

fun HStoreOrNone :: encoder where
  "HStoreOrNone v lazy =
     (if v = PNone then Inr (PStr NULL, lazy)
      else if isinstance v C_dict then HStore v lazy
      else Inl TypeError)"

fun range_factory :: "pyclass \<Rightarrow> encoder \<times> encoder" where
  "range_factory t =
     ((\<lambda>v lazy. case v of
          PRange lo hi _ \<Rightarrow> if isinstance lo t \<and> isinstance hi t then Inr (v, lazy) else Inl TypeError
        | _ \<Rightarrow> Inl TypeError),
      (\<lambda>v lazy. if v = PNone then Inr (PStr NULL, lazy) else
        (case v of
          PRange lo hi _ \<Rightarrow> if isinstance lo t \<and> isinstance hi t then Inr (v, lazy) else Inl TypeError
        | _ \<Rightarrow> Inl TypeError)))"


section \<open>Codecs\<close>

text \<open>
  \<^verbatim>\<open>s.encode(encoding)\<close> is Python's; the codec is a parameter of the model, given by
  the bytes it produces for one code point (\<open>None\<close>: the code point cannot be encoded and
  \<^verbatim>\<open>encode\<close> raises UnicodeEncodeError). Three codecs of the table below are written
  out: \<^verbatim>\<open>ascii\<close>, \<^verbatim>\<open>iso8859-1\<close> and \<^verbatim>\<open>utf-8\<close>.
\<close>

type_synonym codec = "nat \<Rightarrow> bytes option"

fun encode :: "codec \<Rightarrow> pystr \<Rightarrow> error + bytes" where
  "encode codec [] = Inr []"
| "encode codec (c # cs) =
     (case codec c of
        None \<Rightarrow> Inl UnicodeEncodeError
      | Some bs \<Rightarrow> (case encode codec cs of Inl e \<Rightarrow> Inl e | Inr r \<Rightarrow> Inr (bs @ r)))"

definition ascii :: codec where
  "ascii c = (if c < 128 then Some [of_nat c] else None)"

definition iso8859_1 :: codec where
  "iso8859_1 c = (if c < 256 then Some [of_nat c] else None)"

definition utf_8 :: codec where
  "utf_8 c =
     (if c < 0x80 then Some [of_nat c]
      else if c < 0x800 then Some [of_nat (0xC0 + c div 64), of_nat (0x80 + c mod 64)]
      else if c < 0x10000 then
        (if 0xD800 \<le> c \<and> c \<le> 0xDFFF then None
         else Some [of_nat (0xE0 + c div 4096), of_nat (0x80 + c div 64 mod 64),
                    of_nat (0x80 + c mod 64)])
      else if c < 0x110000 then
        Some [of_nat (0xF0 + c div 262144), of_nat (0x80 + c div 4096 mod 64),
              of_nat (0x80 + c div 64 mod 64), of_nat (0x80 + c mod 64)]
      else None)"

text \<open>Postgres connection encodings mapped to Python codec names.\<close>

definition CONNECTION_ENCODINGS :: "(string \<times> string) list" where
  "CONNECTION_ENCODINGS =
    [(''BIG5'', ''big5''), (''EUC_CN'', ''gb2312''), (''EUC_JP'', ''euc_jp''),
     (''EUC_JIS_2004'', ''euc_jis_2004''), (''EUC_KR'', ''euc_kr''),
     (''GB18030'', ''gb18030''), (''GBK'', ''gbk''), (''ISO_8859_5'', ''iso8859-5''),
     (''ISO_8859_6'', ''iso8859-6''), (''ISO_8859_7'', ''iso8859-7''),
     (''ISO_8859_8'', ''iso8859-8''), (''JOHAB'', ''johab''), (''KOI8R'', ''koi8-r''),
     (''KOI8U'', ''koi8-u''), (''LATIN1'', ''iso8859-1''), (''LATIN2'', ''iso8859-2''),
     (''LATIN3'', ''iso8859-3''), (''LATIN4'', ''iso8859-4''), (''LATIN5'', ''iso8859-9''),
     (''LATIN6'', ''iso8859-10''), (''LATIN7'', ''iso8859-13''), (''LATIN8'', ''iso8859-14''),
     (''LATIN9'', ''iso8859-15''), (''LATIN10'', ''iso8859-16''), (''SJIS'', ''shift_jis''),
     (''SHIFT_JIS_2004'', ''shift_jis_2004''), (''SQL_ASCII'', ''ascii''), (''UHC'', ''cp949''),
     (''UTF8'', ''utf-8''), (''WIN866'', ''cp866''), (''WIN874'', ''cp874''),
     (''WIN1250'', ''cp1250''), (''WIN1251'', ''cp1251''), (''WIN1252'', ''cp1252''),
     (''WIN1253'', ''cp1253''), (''WIN1254'', ''cp1254''), (''WIN1255'', ''cp1255''),
     (''WIN1256'', ''cp1256''), (''WIN1257'', ''cp1257''), (''WIN1258'', ''cp1258'')]"

section \<open>The lazy mechanism and the streaming writer\<close>

text \<open>
  \<^verbatim>\<open>data.index(b, start)\<close>: the first position at or after \<open>start\<close> holding \<open>b\<close>;
  \<open>None\<close> is Python's ValueError. \<^verbatim>\<open>m[old:idx]\<close> is \<open>slice m old idx\<close>.
\<close>

fun find_byte :: "byte \<Rightarrow> bytes \<Rightarrow> nat option" where
  "find_byte b [] = None"
| "find_byte b (x # xs) = (if x = b then Some 0 else map_option Suc (find_byte b xs))"

definition index_from :: "bytes \<Rightarrow> byte \<Rightarrow> nat \<Rightarrow> nat option" where
  "index_from data b start = map_option (\<lambda>i. start + i) (find_byte b (drop start data))"

definition slice :: "'a list \<Rightarrow> nat \<Rightarrow> nat \<Rightarrow> 'a list" where
  "slice m lo hi = take (hi - lo) (drop lo m)"

text \<open>
  \<open>write_lazy\<close> returns the writes it made to \<open>f\<close>, in order, and the exception that
  stopped it, if any (the writes made before it stay made): the ValueError of
  \<^verbatim>\<open>index\<close>, or what a writer raised.
\<close>

fun write_lazy_from :: "bytes \<Rightarrow> nat \<Rightarrow> lazy \<Rightarrow> bytes list \<times> error option" where
  "write_lazy_from data idx [] = ([drop idx data], None)"
| "write_lazy_from data idx ((writer, byte_object) # stack) =
     (case index_from data LAZY_PLACEHOLDER_BYTE idx of
        None \<Rightarrow> ([], Some ValueError)
      | Some i \<Rightarrow>
          (case writer byte_object of
             (written, Some e) \<Rightarrow> (slice data idx i # written, Some e)
           | (written, None) \<Rightarrow>
               (case write_lazy_from data (i + 1) stack of
                  (ws, e) \<Rightarrow> (slice data idx i # written @ ws, e))))"

definition write_lazy :: "bytes \<Rightarrow> lazy \<Rightarrow> bytes list \<times> error option" where
  "write_lazy data stack = write_lazy_from data 0 stack"

text \<open>
  What the producer does to the outside, in order: it creates the pipe and starts the
  helper thread (which runs \<^verbatim>\<open>cur.copy_from(fr, tname, size=65536, columns=columns)\<close>
  on the read end), writes to the write end, closes the write end, joins the thread, closes
  the read end; or it hands one in-memory file to \<^verbatim>\<open>c.copy_from\<close>; \<open>copy_update\<close>
  also executes SQL and calls \<^verbatim>\<open>qs.bulk_update\<close>.
\<close>

datatype event =
    Spawn pystr "pystr list"
  | PipeWrite bytes
  | CloseWrite
  | Join
  | CloseRead
  | SinkCopy bytes pystr "pystr list"
  | Execute pystr
  | BulkUpdate "pystr list"

text \<open>
  One row: every encoder is applied to its value, in order and on the same lazy list, and
  its result is formatted by the f-string; the texts are joined by a tab and encoded.
  \<^verbatim>\<open>zip\<close> stops at the shorter of \<open>encs\<close> and the values.
\<close>

fun encode_fields :: "encoder list \<Rightarrow> pyval list \<Rightarrow> lazy \<Rightarrow> error + (pystr list \<times> lazy)" where
  "encode_fields (enc # encs) (el # els) lazy =
     (case enc el lazy of
        Inl e \<Rightarrow> Inl e
      | Inr (r, lazy') \<Rightarrow>
          (case format_value r of
             None \<Rightarrow> Inl Unmodelled
           | Some s \<Rightarrow>
               (case encode_fields encs els lazy' of
                  Inl e \<Rightarrow> Inl e
                | Inr (ss, lazy'') \<Rightarrow> Inr (s # ss, lazy''))))"
| "encode_fields _ _ lazy = Inr ([], lazy)"

definition encode_row :: "codec \<Rightarrow> encoder list \<Rightarrow> pyval list \<Rightarrow> lazy \<Rightarrow> error + (bytes \<times> lazy)" where
  "encode_row encoding encs els lazy =
     (case encode_fields encs els lazy of
        Inl e \<Rightarrow> Inl e
      | Inr (ss, lazy') \<Rightarrow>
          (case encode encoding (join [TAB] ss) of
             Inl e \<Rightarrow> Inl e
           | Inr bs \<Rightarrow> Inr (bs, lazy')))"

text \<open>
  The inner loop of \<open>copy_from\<close>: \<^verbatim>\<open>while length - pos > 65535\<close> writes one slice of
  65536 bytes and advances; it returns the writes and the final \<open>pos\<close>.
\<close>

function write_chunks :: "bytes \<Rightarrow> nat \<Rightarrow> bytes list \<times> nat" where
  "write_chunks m pos =
     (if length m - pos > 65535
      then (case write_chunks m (pos + 65536) of
              (ws, pos') \<Rightarrow> (slice m pos (pos + 65536) # ws, pos'))
      else ([], pos))"
  by pat_completeness auto
termination
  by (relation "measure (\<lambda>(m, pos). length m - pos)") auto

declare write_chunks.simps [simp del]

record cf_state =
  use_thread :: bool
  payload :: bytes
  lazy :: lazy
  events :: "event list"

definition cf_init :: cf_state where
  "cf_init = \<lparr>use_thread = False, payload = [], lazy = [], events = []\<rparr>"

text \<open>The body of the \<^verbatim>\<open>for o in data\<close> loop of \<open>copy_from\<close>.\<close>

definition copy_from_step ::
  "pystr \<Rightarrow> pystr list \<Rightarrow> ('o \<Rightarrow> pyval list) \<Rightarrow> encoder list \<Rightarrow> codec \<Rightarrow> cf_state \<Rightarrow> 'o
     \<Rightarrow> cf_state \<times> error option" where
  "copy_from_step tname columns get encs encoding st ob =
     (case encode_row encoding encs (get ob) (lazy st) of
        Inl e \<Rightarrow> (st, Some e)
      | Inr (row, lazy') \<Rightarrow>
          (let payload' = payload st @ row @ [10];
               st' = st\<lparr>payload := payload', lazy := lazy'\<rparr>
           in if length payload' > 65535 then
                (let st'' = (if \<not> use_thread st'
                             then st'\<lparr>use_thread := True,
                                     events := events st' @ [Spawn tname columns]\<rparr>
                             else st')
                 in if lazy' \<noteq> [] then
                      (case write_lazy payload' lazy' of
                         (ws, Some e) \<Rightarrow>
                           (st''\<lparr>events := events st'' @ map PipeWrite ws\<rparr>, Some e)
                       | (ws, None) \<Rightarrow>
                           (st''\<lparr>events := events st'' @ map PipeWrite ws,
                                 lazy := [], payload := []\<rparr>, None))
                    else
                      (case write_chunks payload' 0 of
                         (ws, pos) \<Rightarrow>
                           (st''\<lparr>events := events st'' @ map PipeWrite ws,
                                 payload := drop pos payload'\<rparr>, None)))
              else (st', None)))"

fun copy_from_loop ::
  "pystr \<Rightarrow> pystr list \<Rightarrow> ('o \<Rightarrow> pyval list) \<Rightarrow> encoder list \<Rightarrow> codec \<Rightarrow> cf_state \<Rightarrow> 'o list
     \<Rightarrow> cf_state \<times> error option" where
  "copy_from_loop tname columns get encs encoding st [] = (st, None)"
| "copy_from_loop tname columns get encs encoding st (ob # data) =
     (case copy_from_step tname columns get encs encoding st ob of
        (st', Some e) \<Rightarrow> (st', Some e)
      | (st', None) \<Rightarrow> copy_from_loop tname columns get encs encoding st' data)"

text \<open>What follows the loop: the last flush and the teardown, or the in-memory delivery.\<close>

definition copy_from_finish :: "pystr \<Rightarrow> pystr list \<Rightarrow> cf_state \<Rightarrow> event list \<times> error option" where
  "copy_from_finish tname columns st =
     (if use_thread st then
        (case (if payload st \<noteq> [] then
                 (if lazy st \<noteq> [] then write_lazy (payload st) (lazy st)
                  else ([payload st], None))
               else ([], None)) of
           (ws, Some e) \<Rightarrow> (events st @ map PipeWrite ws, Some e)
         | (ws, None) \<Rightarrow> (events st @ map PipeWrite ws @ [CloseWrite, Join, CloseRead], None))
      else if payload st \<noteq> [] then
        (if lazy st \<noteq> [] then
           (case write_lazy (payload st) (lazy st) of
              (ws, Some e) \<Rightarrow> (events st, Some e)
            | (ws, None) \<Rightarrow> (events st @ [SinkCopy (concat ws) tname columns], None))
         else (events st @ [SinkCopy (payload st) tname columns], None))
      else (events st, None))"

definition copy_from ::
  "pystr \<Rightarrow> 'o list \<Rightarrow> pystr list \<Rightarrow> ('o \<Rightarrow> pyval list) \<Rightarrow> encoder list \<Rightarrow> codec
     \<Rightarrow> event list \<times> error option" where
  "copy_from tname data columns get encs encoding =
     (case copy_from_loop tname columns get encs encoding cf_init data of
        (st, Some e) \<Rightarrow> (events st, Some e)
      | (st, None) \<Rightarrow> copy_from_finish tname columns st)"


section \<open>The encoder registry\<close>

text \<open>
  What the code reads of a Django field: its name (the text the error message shows), its
  \<^verbatim>\<open>attname\<close>, \<^verbatim>\<open>column\<close>, \<^verbatim>\<open>db_type(conn)\<close> and \<^verbatim>\<open>null\<close>, the classes of
  \<^verbatim>\<open>type(field).__mro__\<close> by name, most derived first, and, when \<^verbatim>\<open>is_relation\<close> holds,
  its \<^verbatim>\<open>target_field\<close>.
\<close>

datatype field =
  Field (name: pystr) (attname: pystr) (column: pystr) (db_type: pystr) (null_f: bool)
        (mro: "string list") (target_field: "field option")

definition is_relation :: "field \<Rightarrow> bool" where
  "is_relation f \<longleftrightarrow> target_field f \<noteq> None"

text \<open>The global dict \<open>ENCODERS\<close>, from class to \<^verbatim>\<open>(encoder, encoder_or_none)\<close>.\<close>

type_synonym registry = "string \<rightharpoonup> encoder \<times> encoder"

definition ENCODERS :: "(pyval \<Rightarrow> error + pystr) \<Rightarrow> registry" where
  "ENCODERS dumps = map_of
    [(''AutoField'', (Int_enc, IntOrNone)),
     (''BigAutoField'', (Int_enc, IntOrNone)),
     (''BigIntegerField'', (Int_enc, IntOrNone)),
     (''BinaryField'', (Binary, BinaryOrNone)),
     (''BooleanField'', (Boolean, BooleanOrNone)),
     (''CharField'', (Text, TextOrNone)),
     (''DateField'', (Date, DateOrNone)),
     (''DateTimeField'', (Datetime, DatetimeOrNone)),
     (''DecimalField'', (Numeric, NumericOrNone)),
     (''DurationField'', (Duration, DurationOrNone)),
     (''EmailField'', (Text, TextOrNone)),
     (''FloatField'', (Float, FloatOrNone)),
     (''GenericIPAddressField'', (Text, TextOrNone)),
     (''IntegerField'', (Int_enc, IntOrNone)),
     (''JSONField'', (Json dumps, JsonOrNone dumps)),
     (''PositiveBigIntegerField'', (Int_enc, IntOrNone)),
     (''PositiveIntegerField'', (Int_enc, IntOrNone)),
     (''PositiveSmallIntegerField'', (Int_enc, IntOrNone)),
     (''SlugField'', (Text, TextOrNone)),
     (''SmallAutoField'', (Int_enc, IntOrNone)),
     (''SmallIntegerField'', (Int_enc, IntOrNone)),
     (''TextField'', (Text, TextOrNone)),
     (''TimeField'', (Time, TimeOrNone)),
     (''URLField'', (Text, TextOrNone)),
     (''UUIDField'', (Uuid, UuidOrNone)),
     (''HStoreField'', (HStore, HStoreOrNone)),
     (''IntegerRangeField'', range_factory C_int),
     (''BigIntegerRangeField'', range_factory C_int),
     (''DecimalRangeField'', range_factory C_Decimal),
     (''DateTimeRangeField'', range_factory C_datetime),
     (''DateRangeField'', range_factory C_date)]"

definition register_fieldclass :: "registry \<Rightarrow> string \<Rightarrow> encoder \<Rightarrow> encoder option \<Rightarrow> registry" where
  "register_fieldclass reg field_cls encoder encoder_none =
     reg(field_cls \<mapsto> (encoder, case encoder_none of None \<Rightarrow> encoder | Some e \<Rightarrow> e))"

text \<open>The \<^verbatim>\<open>for cls in type(field).__mro__\<close> loop of \<open>get_encoder\<close>.\<close>

fun mro_lookup :: "registry \<Rightarrow> string list \<Rightarrow> (encoder \<times> encoder) option" where
  "mro_lookup reg [] = None"
| "mro_lookup reg (cls # rest) =
     (case reg cls of Some enc \<Rightarrow> Some enc | None \<Rightarrow> mro_lookup reg rest)"

fun get_encoder :: "registry \<Rightarrow> field \<Rightarrow> error + encoder" where
  "get_encoder reg (Field n a c d nl m (Some t)) = get_encoder reg t"
| "get_encoder reg (Field n a c d nl m None) =
     (case mro_lookup reg m of
        Some enc \<Rightarrow> Inr (if nl then snd enc else fst enc)
      | None \<Rightarrow> Inl (NotImplementedError n))"

section \<open>The orchestrator\<close>

definition create_columns :: "(pystr \<times> pystr) list \<Rightarrow> pystr" where
  "create_columns column_def =
     replace (replace (replace
       (join (str '','') (map (\<lambda>(k, v). k @ str '' '' @ v) column_def))
       (str ''bigserial'') (str ''bigint''))
       (str ''smallserial'') (str ''smallint''))
       (str ''serial'') (str ''integer'')"

definition dq :: "pystr \<Rightarrow> pystr" where
  "dq s = [DQUOTE] @ s @ [DQUOTE]"

definition update_sql :: "pystr \<Rightarrow> pystr \<Rightarrow> pystr \<Rightarrow> field list \<Rightarrow> pystr" where
  "update_sql tname temp_table pkname copy_fields =
     (let cols = join (str '','')
            (map (\<lambda>f. dq (column f) @ str ''='' @ dq temp_table @ str ''.'' @ dq (column f))
                 copy_fields);
          where_clause = dq tname @ str ''.'' @ dq pkname @ str ''='' @ dq temp_table
                           @ str ''.'' @ dq pkname
      in str ''UPDATE '' @ dq tname @ str '' SET '' @ cols @ str '' FROM '' @ dq temp_table
           @ str '' WHERE '' @ where_clause)"

text \<open>
  What \<open>copy_update\<close> is given from outside: the model's meta data (\<open>get_field\<close> raises
  FieldDoesNotExist on an unknown name), the connection's encoding name, Python's codecs
  by name, the registry, and the two results the database reports: the row count of the
  UPDATE and what \<^verbatim>\<open>qs.bulk_update\<close> returns.
\<close>

record env =
  get_field :: "pystr \<Rightarrow> field option"
  local_fields :: "field list"
  pk :: field
  db_table :: pystr
  connection_encoding :: string
  codecs :: "string \<Rightarrow> codec"
  encoders :: registry
  rowcount :: int
  bulk_update_result :: "int option"

text \<open>The loop that separates the fields that are local to the model from the others.\<close>

fun split_fieldnames :: "env \<Rightarrow> pystr list \<Rightarrow> error + (pystr list \<times> pystr list)" where
  "split_fieldnames E [] = Inr ([], [])"
| "split_fieldnames E (fieldname # rest) =
     (case get_field E fieldname of
        None \<Rightarrow> Inl FieldDoesNotExist
      | Some f \<Rightarrow>
          (case split_fieldnames E rest of
             Inl e \<Rightarrow> Inl e
           | Inr (non_local, local) \<Rightarrow>
               if f \<notin> set (local_fields E) then Inr (fieldname # non_local, local)
               else Inr (non_local, fieldname # local)))"

fun get_fields :: "env \<Rightarrow> pystr list \<Rightarrow> error + field list" where
  "get_fields E [] = Inr []"
| "get_fields E (fname # rest) =
     (case get_field E fname of
        None \<Rightarrow> Inl FieldDoesNotExist
      | Some f \<Rightarrow> (case get_fields E rest of Inl e \<Rightarrow> Inl e | Inr fs \<Rightarrow> Inr (f # fs)))"

text \<open>The list comprehension over \<open>all_fields\<close>, as far as it can raise.\<close>

fun get_encoders :: "registry \<Rightarrow> field list \<Rightarrow> error + encoder list" where
  "get_encoders reg [] = Inr []"
| "get_encoders reg (f # fs) =
     (case get_encoder reg f of
        Inl e \<Rightarrow> Inl e
      | Inr enc \<Rightarrow> (case get_encoders reg fs of Inl e \<Rightarrow> Inl e | Inr encs \<Rightarrow> Inr (enc # encs)))"

text \<open>
  \<^verbatim>\<open>attnames, colnames, encs, column_def = zip(*[...])\<close> binds four tuples, and a tuple
  does not support item assignment: \<^verbatim>\<open>encs[i] = encoder\<close> raises TypeError.
\<close>

definition tuple_setitem :: "'a list \<Rightarrow> nat \<Rightarrow> 'a \<Rightarrow> error + 'a list" where
  "tuple_setitem t i x = Inl TypeError"

definition tuple_index :: "'a list \<Rightarrow> 'a \<Rightarrow> nat" where
  "tuple_index t x = length (takeWhile (\<lambda>y. y \<noteq> x) t)"

fun override_encoders :: "(pystr \<times> encoder) list \<Rightarrow> pystr list \<Rightarrow> encoder list \<Rightarrow> error + encoder list" where
  "override_encoders [] attnames encs = Inr encs"
| "override_encoders ((fname, encoder) # items) attnames encs =
     (if fname \<in> set attnames then
        (case tuple_setitem encs (tuple_index attnames fname) encoder of
           Inl e \<Rightarrow> Inl e
         | Inr encs' \<Rightarrow> override_encoders items attnames encs')
      else override_encoders items attnames encs)"

text \<open>
  \<open>copy_update\<close>. Objects are given by their attributes; \<open>field_encoders\<close> is the dict's
  items (\<^verbatim>\<open>None\<close> and the empty dict are both the empty list); \<open>encoding\<close> is the
  codec name or \<open>None\<close> (an empty name is falsy too). The result is the events and either
  the exception or the value returned.
\<close>

definition copy_update ::
  "env \<Rightarrow> (pystr \<Rightarrow> pyval) list \<Rightarrow> pystr list \<Rightarrow> (pystr \<times> encoder) list \<Rightarrow> string option
     \<Rightarrow> event list \<times> (error + int option)" where
  "copy_update E objs fieldnames field_encoders encoding =
     (case split_fieldnames E fieldnames of
        Inl e \<Rightarrow> ([], Inl e)
      | Inr (non_local_fieldnames, local_fieldnames) \<Rightarrow>
          if local_fieldnames = [] then
            ([BulkUpdate non_local_fieldnames], Inr (bulk_update_result E))
          else
            (case get_fields E local_fieldnames of
               Inl e \<Rightarrow> ([], Inl e)
             | Inr fields_l \<Rightarrow>
                 (let pk_field = pk E; all_fields = pk_field # fields_l
                  in case get_encoders (encoders E) all_fields of
                       Inl e \<Rightarrow> ([], Inl e)
                     | Inr encs0 \<Rightarrow>
                         (let attnames = map attname all_fields;
                              colnames = map column all_fields;
                              column_def = map (\<lambda>f. (column f, db_type f)) all_fields
                          in case (if field_encoders \<noteq> []
                                   then override_encoders field_encoders attnames encs0
                                   else Inr encs0) of
                               Inl e \<Rightarrow> ([], Inl e)
                             | Inr encs \<Rightarrow>
                                 (let get = (\<lambda>ob. map ob attnames);
                                      temp = str ''temp_cu_'' @ db_table E;
                                      ev1 = [Execute (str ''DROP TABLE IF EXISTS '' @ dq temp),
                                             Execute (str ''CREATE TEMPORARY TABLE '' @ dq temp
                                               @ str '' ('' @ create_columns column_def @ str '')'')]
                                  in case (case encoding of
                                             Some n \<Rightarrow> if n \<noteq> [] then Some n
                                                       else map_of CONNECTION_ENCODINGS (connection_encoding E)
                                           | None \<Rightarrow> map_of CONNECTION_ENCODINGS (connection_encoding E)) of
                                       None \<Rightarrow> (ev1, Inl KeyError)
                                     | Some codec_name \<Rightarrow>
                                         (case copy_from temp objs colnames get encs (codecs E codec_name) of
                                            (ev2, Some e) \<Rightarrow> (ev1 @ ev2, Inl e)
                                          | (ev2, None) \<Rightarrow>
                                              (let ev3 = [Execute (str ''ANALYZE '' @ dq temp @ str '' ('' @ column pk_field @ str '')''),
                                                          Execute (update_sql (db_table E) temp (column pk_field) fields_l),
                                                          Execute (str ''DROP TABLE '' @ dq temp)];
                                                   rows_updated = rowcount E
                                               in if non_local_fieldnames \<noteq> [] then
                                                    (ev1 @ ev2 @ ev3 @ [BulkUpdate non_local_fieldnames],
                                                     Inr (Some (max rows_updated
                                                       (case bulk_update_result E of None \<Rightarrow> 0 | Some r \<Rightarrow> r))))
                                                  else (ev1 @ ev2 @ ev3, Inr (Some rows_updated)))))))))"

section \<open>Reference definitions and examples\<close>

text \<open>
  What \<open>text_escape\<close> does to one character, and the inverse reading of the escaped
  text: a backslash must be followed by a backslash or by one of the letters b, f, n, r,
  t, v, and a raw control character is refused.
\<close>

definition esc :: "nat \<Rightarrow> pystr" where
  "esc c = (if c = BACKSLASH then [BACKSLASH, BACKSLASH]
            else if c = BS then [BACKSLASH, 98]
            else if c = FF then [BACKSLASH, 102]
            else if c = LF then [BACKSLASH, 110]
            else if c = CR then [BACKSLASH, 114]
            else if c = TAB then [BACKSLASH, 116]
            else if c = VT then [BACKSLASH, 118]
            else [c])"

fun unescape_char :: "nat \<Rightarrow> nat option" where
  "unescape_char d =
     (if d = BACKSLASH then Some BACKSLASH
      else if d = 98 then Some BS
      else if d = 102 then Some FF
      else if d = 110 then Some LF
      else if d = 114 then Some CR
      else if d = 116 then Some TAB
      else if d = 118 then Some VT
      else None)"

fun text_unescape :: "pystr \<Rightarrow> pystr option" where
  "text_unescape [] = Some []"
| "text_unescape [c] = (if c \<in> {BACKSLASH, BS, FF, LF, CR, TAB, VT} then None else Some [c])"
| "text_unescape (c # d # ds) =
     (if c = BACKSLASH then
        (case unescape_char d of
           None \<Rightarrow> None
         | Some x \<Rightarrow> map_option ((#) x) (text_unescape ds))
      else if c \<in> {BS, FF, LF, CR, TAB, VT} then None
      else map_option ((#) c) (text_unescape (d # ds)))"

text \<open>
  The text of one hstore pair as the specification words it: the quoted, nested-escaped
  key, \<^verbatim>\<open>=>\<close>, and the quoted, nested-escaped value or the bare word NULL. Nested
  escaping of one character: a backslash is quadrupled, a double quote gets two
  backslashes in front, the six control characters get their two-character escapes. A
  dict with str keys and str-or-None values is given by typed items.
\<close>

definition nested_esc :: "nat \<Rightarrow> pystr" where
  "nested_esc c = (if c = BACKSLASH then [BACKSLASH, BACKSLASH, BACKSLASH, BACKSLASH]
            else if c = DQUOTE then [BACKSLASH, BACKSLASH, DQUOTE]
            else if c = BS then [BACKSLASH, 98]
            else if c = FF then [BACKSLASH, 102]
            else if c = LF then [BACKSLASH, 110]
            else if c = CR then [BACKSLASH, 114]
            else if c = TAB then [BACKSLASH, 116]
            else if c = VT then [BACKSLASH, 118]
            else [c])"

definition nested_quoted :: "pystr \<Rightarrow> pystr" where
  "nested_quoted s = [DQUOTE] @ concat (map nested_esc s) @ [DQUOTE]"

definition hstore_pair :: "pystr \<times> pystr option \<Rightarrow> pystr" where
  "hstore_pair kv =
     nested_quoted (fst kv) @ str ''=>''
       @ (case snd kv of None \<Rightarrow> str ''NULL'' | Some s \<Rightarrow> nested_quoted s)"

definition str_dict :: "(pystr \<times> pystr option) list \<Rightarrow> pyval" where
  "str_dict kvs = PDict (map (\<lambda>(k, v). (PStr k, case v of None \<Rightarrow> PNone | Some s \<Rightarrow> PStr s)) kvs)"

text \<open>
  A model with an auto-increment key and a text column, a second model whose nullable
  foreign key points to the first one's key, and an object of the first.
\<close>

definition book_id :: field where
  "book_id = Field (str ''app.Book.id'') (str ''id'') (str ''id'') (str ''serial'') False
     [''AutoField'', ''AutoFieldMixin'', ''IntegerField'', ''Field'', ''RegisterLookupMixin'', ''object'']
     None"

definition book_title :: field where
  "book_title = Field (str ''app.Book.title'') (str ''title'') (str ''title'') (str ''varchar(100)'') False
     [''CharField'', ''Field'', ''RegisterLookupMixin'', ''object'']
     None"

definition review_book :: field where
  "review_book = Field (str ''app.Review.book'') (str ''book_id'') (str ''book_id'') (str ''integer'') True
     [''ForeignKey'', ''ForeignObject'', ''RelatedField'', ''FieldCacheMixin'', ''Field'',
      ''RegisterLookupMixin'', ''object'']
     (Some book_id)"

definition no_dumps :: "pyval \<Rightarrow> error + pystr" where
  "no_dumps v = Inl TypeError"

definition book_env :: env where
  "book_env =
     \<lparr>get_field = map_of [(str ''id'', book_id), (str ''title'', book_title)],
      local_fields = [book_id, book_title],
      pk = book_id,
      db_table = str ''app_book'',
      connection_encoding = ''UTF8'',
      codecs = (\<lambda>n. if n = ''ascii'' then ascii else if n = ''iso8859-1'' then iso8859_1 else utf_8),
      encoders = ENCODERS no_dumps,
      rowcount = 1,
      bulk_update_result = None\<rparr>"

definition a_book :: "pystr \<Rightarrow> pyval" where
  "a_book a = (if a = str ''id'' then PInt 1 else if a = str ''title'' then PStr (str ''Emma'') else PNone)"

text \<open>
  The bytes that reach the bulk-load sink: what is written to the pipe and what is handed
  over in memory, in order.
\<close>

fun delivered :: "event list \<Rightarrow> bytes" where
  "delivered [] = []"
| "delivered (PipeWrite b # es) = b @ delivered es"
| "delivered (SinkCopy b tname columns # es) = b @ delivered es"
| "delivered (e # es) = delivered es"

text \<open>
  Substitution as the specification words it: scanning left to right, the K-th
  placeholder byte is replaced by what the K-th lazy entry's writer writes for its object,
  and every other byte is copied (a placeholder byte beyond the last entry is copied too).
\<close>

fun subst :: "bytes \<Rightarrow> lazy \<Rightarrow> bytes" where
  "subst [] stack = []"
| "subst (b # bs) stack =
     (if b = LAZY_PLACEHOLDER_BYTE then
        (case stack of
           [] \<Rightarrow> b # subst bs []
         | (writer, byte_object) # rest \<Rightarrow> concat (fst (writer byte_object)) @ subst bs rest)
      else b # subst bs stack)"

text \<open>
  A codec is ASCII-compatible when a code point below 128 is the one byte of that value
  and no other code point gives a zero byte.
\<close>

definition ascii_compatible :: "codec \<Rightarrow> bool" where
  "ascii_compatible encoding \<longleftrightarrow>
     (\<forall>c < 128. encoding c = Some [of_nat c])
     \<and> (\<forall>c bs. 128 \<le> c \<longrightarrow> encoding c = Some bs \<longrightarrow> LAZY_PLACEHOLDER_BYTE \<notin> set bs)"

text \<open>
  An encoder keeps the placeholder discipline on a value when what it does with a lazy
  list is to append the entries it would append to the empty list, and the text of its
  result holds as many NUL characters as entries were appended.
\<close>

definition keeps_discipline :: "encoder \<Rightarrow> pyval \<Rightarrow> bool" where
  "keeps_discipline enc el \<longleftrightarrow>
     (\<forall>lz. enc el lz = (case enc el [] of Inl e \<Rightarrow> Inl e | Inr (r, new) \<Rightarrow> Inr (r, lz @ new)))
     \<and> (\<forall>r new s. enc el [] = Inr (r, new) \<longrightarrow> format_value r = Some s
           \<longrightarrow> count_list s NUL = length new)"

fun row_keeps_discipline :: "encoder list \<Rightarrow> pyval list \<Rightarrow> bool" where
  "row_keeps_discipline (enc # encs) (el # els) \<longleftrightarrow>
     keeps_discipline enc el \<and> row_keeps_discipline encs els"
| "row_keeps_discipline _ _ \<longleftrightarrow> True"

text \<open>
  Lazy entries are writable when none of their writers raises on its object; a row is
  writable when the entries its encoder calls append are.
\<close>

definition entries_writable :: "lazy \<Rightarrow> bool" where
  "entries_writable stack \<longleftrightarrow>
     (\<forall>(writer, byte_object) \<in> set stack. snd (writer byte_object) = None)"

fun row_writable :: "encoder list \<Rightarrow> pyval list \<Rightarrow> bool" where
  "row_writable (enc # encs) (el # els) \<longleftrightarrow>
     (case enc el [] of Inl e \<Rightarrow> True | Inr (r, new) \<Rightarrow> entries_writable new)
     \<and> row_writable encs els"
| "row_writable _ _ \<longleftrightarrow> True"

text \<open>A contiguous buffer is a bytes object or a C-contiguous memoryview.\<close>

fun contiguous_buffer :: "pyval \<Rightarrow> bool" where
  "contiguous_buffer (PBytes b) \<longleftrightarrow> True"
| "contiguous_buffer (PMemoryview items c) \<longleftrightarrow> c"
| "contiguous_buffer _ \<longleftrightarrow> False"

text \<open>
  The bytes of one field with its own deferred values put in place, of one row, and of
  all rows; the first exception otherwise.
\<close>

definition resolve_field :: "codec \<Rightarrow> encoder \<Rightarrow> pyval \<Rightarrow> error + bytes" where
  "resolve_field encoding enc el =
     (case enc el [] of
        Inl e \<Rightarrow> Inl e
      | Inr (r, new) \<Rightarrow>
          (case format_value r of
             None \<Rightarrow> Inl Unmodelled
           | Some s \<Rightarrow> (case encode encoding s of Inl e \<Rightarrow> Inl e | Inr bs \<Rightarrow> Inr (subst bs new))))"

fun resolve_fields :: "codec \<Rightarrow> encoder list \<Rightarrow> pyval list \<Rightarrow> error + bytes list" where
  "resolve_fields encoding (enc # encs) (el # els) =
     (case resolve_field encoding enc el of
        Inl e \<Rightarrow> Inl e
      | Inr b \<Rightarrow>
          (case resolve_fields encoding encs els of Inl e \<Rightarrow> Inl e | Inr bs \<Rightarrow> Inr (b # bs)))"
| "resolve_fields encoding _ _ = Inr []"

fun resolve_rows :: "codec \<Rightarrow> encoder list \<Rightarrow> pyval list list \<Rightarrow> error + bytes" where
  "resolve_rows encoding encs [] = Inr []"
| "resolve_rows encoding encs (els # rows) =
     (case resolve_fields encoding encs els of
        Inl e \<Rightarrow> Inl e
      | Inr fs \<Rightarrow>
          (case resolve_rows encoding encs rows of
             Inl e \<Rightarrow> Inl e
           | Inr bs \<Rightarrow> Inr (join [9] fs @ [10] @ bs)))"



datatype column = BinaryColumn bool | OtherColumn encoder




text \<open>
  The shape of what a run does to the pipe: nothing, or the one creation of pipe and
  thread followed by writes only.
\<close>

definition streaming :: "pystr \<Rightarrow> pystr list \<Rightarrow> cf_state \<Rightarrow> bool" where
  "streaming tname columns st \<longleftrightarrow>
     (\<exists>ws. events st = (if use_thread st then Spawn tname columns # map PipeWrite ws else []))"



section \<open>Escaping\<close>

lemma replace_single:
  "replace s [a] new = concat (map (\<lambda>c. if c = a then new else [c]) s)"
  by (induction s) auto

lemma concat_map_concat_map:
  "concat (map g (concat (map f s))) = concat (map (\<lambda>c. concat (map g (f c))) s)"
  by (induction s) auto

lemma text_escape_charwise: "text_escape s = concat (map esc s)"
  unfolding text_escape_def replace_single concat_map_concat_map
  by (rule arg_cong[where f=concat], rule map_cong, simp, simp add: esc_def)

lemma text_unescape_esc: "text_unescape (esc c @ r) = map_option ((#) c) (text_unescape r)"
  by (cases r) (auto simp: esc_def)

lemma text_unescape_concat_esc: "text_unescape (concat (map esc s)) = Some s"
  by (induction s) (simp_all add: text_unescape_esc)

lemma esc_no_control: "c' \<in> set (esc c) \<Longrightarrow> c' \<notin> {BS, FF, LF, CR, TAB, VT}"
  by (auto simp: esc_def split: if_splits)

text \<open>
  C7: for every string \<open>s\<close>, \<open>text_escape s\<close> (backslash replaced first, then backspace,
  form feed, newline, carriage return, tab and vertical tab) is \<open>s\<close> with each of the
  seven characters replaced by its two-character escape and nothing escaped twice; the
  result holds none of the six control characters, every backslash in it starts an
  escape, and reading the escapes back gives \<open>s\<close>: \<open>text_unescape\<close> refuses a raw control
  character and a backslash that starts no escape, and it returns \<open>s\<close>.
\<close>

theorem text_escape_roundtrip:
  "text_escape s = concat (map esc s)
   \<and> BS \<notin> set (text_escape s) \<and> FF \<notin> set (text_escape s) \<and> LF \<notin> set (text_escape s)
   \<and> CR \<notin> set (text_escape s) \<and> TAB \<notin> set (text_escape s) \<and> VT \<notin> set (text_escape s)
   \<and> text_unescape (text_escape s) = Some s"
  using esc_no_control by (auto simp: text_escape_charwise text_unescape_concat_esc)

theorem text_escape_roundtrip_witness:
  "text_escape [97, BACKSLASH, 110, TAB, LF, BACKSLASH] =
     [97, BACKSLASH, BACKSLASH, 110, BACKSLASH, 116, BACKSLASH, 110, BACKSLASH, BACKSLASH]
   \<and> text_unescape [97, BACKSLASH, BACKSLASH, 110, BACKSLASH, 116, BACKSLASH, 110, BACKSLASH, BACKSLASH]
       = Some [97, BACKSLASH, 110, TAB, LF, BACKSLASH]"
  using text_escape_roundtrip [of "[97, BACKSLASH, 110, TAB, LF, BACKSLASH]"]
  by (simp add: esc_def)

section \<open>Type checks of the encoders\<close>

text \<open>
  C10: \<^verbatim>\<open>bool\<close> is a subclass of \<^verbatim>\<open>int\<close>, so the integer and float encoders, strict
  and nullable, pass \<^verbatim>\<open>True\<close> and \<^verbatim>\<open>False\<close> along instead of raising, while the boolean
  encoders raise TypeError on a plain int.
\<close>

theorem bool_passes_integer_encoders:
  "Int_enc (PBool b) lz = Inr (PBool b, lz)
   \<and> IntOrNone (PBool b) lz = Inr (PBool b, lz)
   \<and> Float (PBool b) lz = Inr (PBool b, lz)
   \<and> FloatOrNone (PBool b) lz = Inr (PBool b, lz)
   \<and> Boolean (PInt i) lz = Inl TypeError
   \<and> BooleanOrNone (PInt i) lz = Inl TypeError"
  by (simp add: Float_def FloatOrNone_def Boolean_def BooleanOrNone_def pass_along_def
      pass_along_or_none_def isinstance_def issubclass_def)

theorem bool_passes_integer_encoders_witness:
  "Int_enc (PBool True) [] = Inr (PBool True, []) \<and> Boolean (PInt 1) [] = Inl TypeError"
  using bool_passes_integer_encoders [of True "[]" 1] by simp

section \<open>The hstore encoder\<close>

lemma quote_nested_charwise: "quote (text_escape_nested s) = nested_quoted s"
  unfolding quote_def text_escape_nested_def nested_quoted_def replace_single concat_map_concat_map
  by (simp, rule arg_cong[where f=concat], rule map_cong, simp, simp add: nested_esc_def)

lemma hstore_parts_typed:
  "hstore_parts (map (\<lambda>(k, v). (PStr k, case v of None \<Rightarrow> PNone | Some s \<Rightarrow> PStr s)) kvs)
     = Inr (map hstore_pair kvs)"
  by (induction kvs)
     (auto simp: hstore_pair_def quote_nested_charwise SQL_NULL_def split: option.splits)

lemma hstore_parts_bad:
  "(k, v) \<in> set items \<Longrightarrow> type_of k \<noteq> C_str \<or> (v \<noteq> PNone \<and> type_of v \<noteq> C_str)
     \<Longrightarrow> hstore_parts items = Inl TypeError"
proof (induction items)
  case Nil
  then show ?case by simp
next
  case (Cons kv items)
  obtain k' v' where kv: "kv = (k', v')" by (cases kv)
  show ?case
  proof (cases "(k, v) = kv")
    case True
    with Cons.prems(2) kv show ?thesis
      by (cases k; cases v) auto
  next
    case False
    with Cons have "hstore_parts items = Inl TypeError" by auto
    then show ?thesis using kv
      by (cases k'; cases v') auto
  qed
qed

text \<open>
  C6: for a dict with str keys and str-or-None values, \<open>HStore\<close> returns the pairs joined
  by commas, each pair the double-quoted nested-escaped key, \<^verbatim>\<open>=>\<close>, and the
  double-quoted nested-escaped value, or the bare word NULL for \<^verbatim>\<open>None\<close>; a dict holding
  a key that is not a str, or a value that is neither a str nor \<^verbatim>\<open>None\<close>, raises
  TypeError; and the dict with the one key k and the value v, double quote, q gives
  \<^verbatim>\<open>"k"=>"v\\"q"\<close>, the inner quote escaped once.
\<close>

theorem HStore_encoding:
  "HStore (str_dict kvs) lz = Inr (PStr (join (str '','') (map hstore_pair kvs)), lz)
   \<and> ((k, v) \<in> set items \<and> (type_of k \<noteq> C_str \<or> (v \<noteq> PNone \<and> type_of v \<noteq> C_str))
        \<longrightarrow> HStore (PDict items) lz = Inl TypeError)
   \<and> HStore (str_dict [(str ''k'', Some [118, DQUOTE, 113])]) lz
        = Inr (PStr ([DQUOTE] @ str ''k'' @ [DQUOTE] @ str ''=>''
                       @ [DQUOTE, 118, BACKSLASH, BACKSLASH, DQUOTE, 113, DQUOTE]), lz)"
proof (intro conjI impI)
  show "HStore (str_dict kvs) lz = Inr (PStr (join (str '','') (map hstore_pair kvs)), lz)"
    by (simp add: str_dict_def hstore_parts_typed)
  show "HStore (PDict items) lz = Inl TypeError"
    if "(k, v) \<in> set items \<and> (type_of k \<noteq> C_str \<or> (v \<noteq> PNone \<and> type_of v \<noteq> C_str))"
    using that hstore_parts_bad[of k v items] by auto
  show "HStore (str_dict [(str ''k'', Some [118, DQUOTE, 113])]) lz
        = Inr (PStr ([DQUOTE] @ str ''k'' @ [DQUOTE] @ str ''=>''
                       @ [DQUOTE, 118, BACKSLASH, BACKSLASH, DQUOTE, 113, DQUOTE]), lz)"
    by (simp add: str_dict_def str_def quote_def text_escape_nested_def)
qed

theorem HStore_encoding_witness:
  "HStore (str_dict [(str ''a'', None), (str ''b'', Some (str ''c''))]) []
     = Inr (PStr ([DQUOTE] @ str ''a'' @ [DQUOTE] @ str ''=>NULL,'' @ [DQUOTE] @ str ''b'' @ [DQUOTE]
                    @ str ''=>'' @ [DQUOTE] @ str ''c'' @ [DQUOTE]), [])
   \<and> HStore (PDict [(PStr (str ''a''), PInt 1)]) [] = Inl TypeError
   \<and> HStore (PDict [(PInt 1, PStr (str ''a''))]) [] = Inl TypeError"
  using HStore_encoding[of "[(str ''a'', None), (str ''b'', Some (str ''c''))]" "[]"
          "PStr (str ''a'')" "PInt 1" "[(PStr (str ''a''), PInt 1)]"]
        HStore_encoding[of "[]" "[]" "PInt 1" "PStr (str ''a'')" "[(PInt 1, PStr (str ''a''))]"]
  by (simp add: hstore_pair_def nested_quoted_def nested_esc_def str_def)

section \<open>The orchestrator's set-up\<close>

text \<open>
  C9: \<open>create_columns\<close> replaces in the joined text of names and types, so a column name
  that holds the word serial is altered too: the column \<^verbatim>\<open>serial_no\<close> of type
  \<^verbatim>\<open>integer\<close> comes out as \<^verbatim>\<open>integer_no integer\<close>, while the types
  \<^verbatim>\<open>bigserial\<close>, \<^verbatim>\<open>smallserial\<close> and \<^verbatim>\<open>serial\<close> of columns with other names become
  \<^verbatim>\<open>bigint\<close>, \<^verbatim>\<open>smallint\<close> and \<^verbatim>\<open>integer\<close>.
\<close>

theorem create_columns_alters_names:
  "create_columns [(str ''serial_no'', str ''integer'')] = str ''integer_no integer''
   \<and> create_columns [(str ''id'', str ''bigserial''), (str ''n'', str ''smallserial''),
                      (str ''m'', str ''serial'')]
       = str ''id bigint,n smallint,m integer''"
  by (simp add: create_columns_def str_def)

theorem create_columns_alters_names_witness:
  "create_columns [(str ''serial_no'', str ''integer'')] \<noteq> str ''serial_no integer''"
  using create_columns_alters_names by (simp add: str_def)

lemma override_encoders_raises:
  "(fname, encoder) \<in> set field_encoders \<Longrightarrow> fname \<in> set attnames
     \<Longrightarrow> override_encoders field_encoders attnames encs = Inl TypeError"
  by (induction field_encoders attnames encs rule: override_encoders.induct)
     (auto simp: tuple_setitem_def)

text \<open>
  C2: on the model with the key \<^verbatim>\<open>id\<close> and the text column \<^verbatim>\<open>title\<close>, \<open>copy_update\<close>
  called with \<open>field_encoders\<close> holding an encoder for \<^verbatim>\<open>title\<close> raises TypeError before
  anything is sent to the database, whatever the encoder, the objects and the encoding
  are: the encoders are a tuple, and the override assigns to an item of it. Without the
  override the same call completes.
\<close>

theorem copy_update_override_raises:
  "copy_update book_env objs [str ''title''] [(str ''title'', encoder)] encoding = ([], Inl TypeError)
   \<and> snd (copy_update book_env [a_book] [str ''title''] [] None) = Inr (Some 1)"
proof
  have "override_encoders [(str ''title'', encoder)] [str ''id'', str ''title''] encs = Inl TypeError" for encs
    by (rule override_encoders_raises[of "str ''title''" encoder]) simp_all
  then show "copy_update book_env objs [str ''title''] [(str ''title'', encoder)] encoding = ([], Inl TypeError)"
    by (simp add: copy_update_def book_env_def book_id_def book_title_def ENCODERS_def str_def)
  show "snd (copy_update book_env [a_book] [str ''title''] [] None) = Inr (Some 1)"
    by (simp add: copy_update_def book_env_def book_id_def book_title_def str_def ENCODERS_def
        CONNECTION_ENCODINGS_def copy_from_def cf_init_def copy_from_step_def encode_row_def
        a_book_def isinstance_def issubclass_def str_of_int_def digits.simps text_escape_def
        utf_8_def copy_from_finish_def Let_def)
qed

theorem copy_update_override_raises_witness:
  "copy_update book_env [a_book] [str ''title''] [(str ''title'', Text)] None = ([], Inl TypeError)"
  using copy_update_override_raises [of "[a_book]" Text None] by simp

text \<open>
  C8: \<open>get_encoder\<close> on a relation field is \<open>get_encoder\<close> on its target field, so the
  field's own \<^verbatim>\<open>null\<close> is not read: the nullable foreign key to the non-nullable
  auto-increment key gets the strict integer encoder, which raises TypeError on
  \<^verbatim>\<open>None\<close> where the nullable member of the pair returns NULL.
\<close>

theorem get_encoder_nullable_relation:
  "get_encoder reg (Field n a c d nl m (Some t)) = get_encoder reg t
   \<and> null_f review_book
   \<and> get_encoder (ENCODERS dumps) review_book = Inr Int_enc
   \<and> Int_enc PNone lz = Inl TypeError
   \<and> IntOrNone PNone lz = Inr (PStr NULL, lz)"
  by (simp add: review_book_def book_id_def ENCODERS_def isinstance_def issubclass_def)

theorem get_encoder_nullable_relation_witness:
  "(case get_encoder (ENCODERS no_dumps) review_book of Inl e \<Rightarrow> Inl e | Inr enc \<Rightarrow> enc PNone [])
     = Inl TypeError"
  using get_encoder_nullable_relation [of "ENCODERS no_dumps" "[]" "[]" "[]" "[]" False "[]" book_id no_dumps "[]"]
  by simp

section \<open>The lazy mechanism\<close>

lemma find_byte_None: "find_byte b xs = None \<longleftrightarrow> b \<notin> set xs"
  by (induction xs) auto

lemma find_byte_Some:
  "find_byte b xs = Some i \<Longrightarrow> xs = take i xs @ b # drop (Suc i) xs \<and> b \<notin> set (take i xs) \<and> i < length xs"
  by (induction xs arbitrary: i) (auto split: if_splits)

lemma subst_plain: "LAZY_PLACEHOLDER_BYTE \<notin> set pre \<Longrightarrow> subst (pre @ rest) stack = pre @ subst rest stack"
  by (induction pre) auto

lemma subst_empty: "subst data [] = data"
  by (induction data) auto

lemma subst_append:
  "count_list a LAZY_PLACEHOLDER_BYTE = length s1 \<Longrightarrow> subst (a @ b) (s1 @ s2) = subst a s1 @ subst b s2"
proof (induction a arbitrary: s1)
  case Nil
  then show ?case by simp
next
  case (Cons x a)
  show ?case
  proof (cases "x = LAZY_PLACEHOLDER_BYTE")
    case True
    with Cons.prems obtain e s1' where s1: "s1 = e # s1'" and "count_list a LAZY_PLACEHOLDER_BYTE = length s1'"
      by (cases s1) auto
    with Cons.IH[of s1'] True show ?thesis by (cases e) simp
  next
    case False
    with Cons show ?thesis by simp
  qed
qed

lemma entries_writable_Cons:
  "entries_writable ((writer, byte_object) # stack)
     \<longleftrightarrow> snd (writer byte_object) = None \<and> entries_writable stack"
  by (simp add: entries_writable_def)

lemma entries_writable_append:
  "entries_writable (a @ b) \<longleftrightarrow> entries_writable a \<and> entries_writable b"
  by (auto simp: entries_writable_def)

lemma write_lazy_from_run:
  "length stack \<le> count_list (drop idx data) LAZY_PLACEHOLDER_BYTE
     \<Longrightarrow> \<exists>ws err. write_lazy_from data idx stack = (ws, err)
           \<and> (err = None \<longrightarrow> concat ws = subst (drop idx data) stack)
           \<and> (\<forall>e. err = Some e \<longrightarrow> (\<exists>(writer, byte_object) \<in> set stack. snd (writer byte_object) = Some e))"
proof (induction stack arbitrary: idx)
  case Nil
  then show ?case by (simp add: subst_empty)
next
  case (Cons e stack)
  obtain writer byte_object where e: "e = (writer, byte_object)" by (cases e)
  obtain written we where w: "writer byte_object = (written, we)" by (cases "writer byte_object")
  let ?xs = "drop idx data"
  from Cons.prems have "LAZY_PLACEHOLDER_BYTE \<in> set ?xs"
    by (metis count_list_0_iff length_Cons not_less_eq_eq le0)
  then obtain i where i: "find_byte LAZY_PLACEHOLDER_BYTE ?xs = Some i"
    using find_byte_None by (cases "find_byte LAZY_PLACEHOLDER_BYTE ?xs") auto
  from find_byte_Some[OF i]
  have split: "?xs = take i ?xs @ LAZY_PLACEHOLDER_BYTE # drop (Suc i) ?xs"
    and plain: "LAZY_PLACEHOLDER_BYTE \<notin> set (take i ?xs)" and "i < length ?xs"
    by auto
  have rest: "drop (Suc i) ?xs = drop (idx + i + 1) data"
    by (simp add: add.commute)
  have idx: "index_from data LAZY_PLACEHOLDER_BYTE idx = Some (idx + i)"
    using i by (simp add: index_from_def)
  have sl: "slice data idx (idx + i) = take i ?xs"
    by (simp add: slice_def)
  show ?case
  proof (cases we)
    case (Some err)
    with w e idx have "write_lazy_from data idx (e # stack) = (take i ?xs # written, Some err)"
      by (simp add: sl)
    moreover have "\<exists>(writer, byte_object) \<in> set (e # stack). snd (writer byte_object) = Some err"
      using e w Some by auto
    ultimately show ?thesis by simp
  next
    case None
    have "count_list ?xs LAZY_PLACEHOLDER_BYTE = Suc (count_list (drop (Suc i) ?xs) LAZY_PLACEHOLDER_BYTE)"
      using plain by (subst split) (simp add: count_list_0_iff)
    with Cons.prems have "length stack \<le> count_list (drop (idx + i + 1) data) LAZY_PLACEHOLDER_BYTE"
      using rest by simp
    from Cons.IH[OF this] obtain ws err where
      ws: "write_lazy_from data (idx + i + 1) stack = (ws, err)"
      and ok: "err = None \<longrightarrow> concat ws = subst (drop (idx + i + 1) data) stack"
      and bad: "\<forall>e. err = Some e \<longrightarrow> (\<exists>(writer, byte_object) \<in> set stack. snd (writer byte_object) = Some e)"
      by blast
    have run: "write_lazy_from data idx (e # stack) = (take i ?xs # written @ ws, err)"
      using w e idx None ws by (simp add: sl)
    have "subst ?xs (e # stack) = take i ?xs @ concat written @ subst (drop (Suc i) ?xs) stack"
      using plain e w by (subst split) (simp add: subst_plain)
    with ok rest have "err = None \<longrightarrow> concat (take i ?xs # written @ ws) = subst ?xs (e # stack)"
      by simp
    moreover from bad have "\<forall>e'. err = Some e' \<longrightarrow> (\<exists>(writer, byte_object) \<in> set (e # stack). snd (writer byte_object) = Some e')"
      by auto
    ultimately show ?thesis using run by blast
  qed
qed

lemma write_lazy_run:
  "length stack \<le> count_list data LAZY_PLACEHOLDER_BYTE
     \<Longrightarrow> \<exists>ws err. write_lazy data stack = (ws, err)
           \<and> (err = None \<longrightarrow> concat ws = subst data stack)
           \<and> (\<forall>e. err = Some e \<longrightarrow> (\<exists>(writer, byte_object) \<in> set stack. snd (writer byte_object) = Some e))"
  using write_lazy_from_run[of stack 0 data] by (simp add: write_lazy_def)

lemma write_lazy_ok:
  assumes "length stack \<le> count_list data LAZY_PLACEHOLDER_BYTE" "entries_writable stack"
  shows "\<exists>ws. write_lazy data stack = (ws, None) \<and> concat ws = subst data stack"
proof -
  from write_lazy_run[OF assms(1)] obtain ws err where
    run: "write_lazy data stack = (ws, err)" and ok: "err = None \<longrightarrow> concat ws = subst data stack"
    and bad: "\<forall>e. err = Some e \<longrightarrow> (\<exists>(writer, byte_object) \<in> set stack. snd (writer byte_object) = Some e)"
    by blast
  from bad assms(2) have "err = None"
    by (cases err) (auto simp: entries_writable_def)
  with run ok show ?thesis by simp
qed

lemma write_chunks_concat:
  "write_chunks m pos = (ws, pos') \<Longrightarrow> pos \<le> length m \<Longrightarrow> concat ws @ drop pos' m = drop pos m \<and> pos' \<le> length m"
proof (induction m pos arbitrary: ws pos' rule: write_chunks.induct)
  case (1 m pos)
  show ?case
  proof (cases "length m - pos > 65535")
    case True
    then obtain ws1 where w1: "write_chunks m (pos + 65536) = (ws1, pos')" and ws: "ws = slice m pos (pos + 65536) # ws1"
      using "1.prems"(1) by (subst (asm) write_chunks.simps) (auto split: prod.splits)
    from True have le: "pos + 65536 \<le> length m" by simp
    from "1.IH"[OF True w1 le] have ih: "concat ws1 @ drop pos' m = drop (pos + 65536) m" and "pos' \<le> length m" by auto
    have "slice m pos (pos + 65536) @ drop (pos + 65536) m = drop pos m"
      by (simp add: slice_def) (metis add.commute append_take_drop_id drop_drop)
    with ih ws \<open>pos' \<le> length m\<close> show ?thesis by simp
  next
    case False
    with "1.prems" show ?thesis by (subst (asm) write_chunks.simps) simp
  qed
qed

section \<open>Rows and their deferred values\<close>

lemma encode_append:
  "encode encoding (a @ b) =
     (case encode encoding a of
        Inl e \<Rightarrow> Inl e
      | Inr x \<Rightarrow> (case encode encoding b of Inl e \<Rightarrow> Inl e | Inr y \<Rightarrow> Inr (x @ y)))"
  by (induction a) (auto split: option.splits sum.splits)

lemma byte_of_nat_zero: "c < 128 \<Longrightarrow> (of_nat c :: byte) = 0 \<longleftrightarrow> c = 0"
  by (auto simp: word_of_nat_eq_0_iff dest: dvd_imp_le)

lemma ascii_compatible_count:
  "ascii_compatible encoding \<Longrightarrow> encoding c = Some bs
     \<Longrightarrow> count_list bs LAZY_PLACEHOLDER_BYTE = (if c = NUL then 1 else 0)"
proof (cases "c < 128")
  case True
  assume "ascii_compatible encoding" "encoding c = Some bs"
  with True have "bs = [of_nat c]" by (auto simp: ascii_compatible_def)
  then show ?thesis using True by (simp add: byte_of_nat_zero LAZY_PLACEHOLDER_BYTE_def)
next
  case False
  assume "ascii_compatible encoding" "encoding c = Some bs"
  with False have "LAZY_PLACEHOLDER_BYTE \<notin> set bs" by (auto simp: ascii_compatible_def not_less)
  then show ?thesis using False by (simp add: count_list_0_iff)
qed

lemma encode_count:
  "ascii_compatible encoding \<Longrightarrow> encode encoding s = Inr bs
     \<Longrightarrow> count_list bs LAZY_PLACEHOLDER_BYTE = count_list s NUL"
proof (induction s arbitrary: bs)
  case Nil
  then show ?case by simp
next
  case (Cons c s)
  from Cons.prems(2) obtain b r where b: "encoding c = Some b" and r: "encode encoding s = Inr r" and bs: "bs = b @ r"
    by (auto split: option.splits sum.splits)
  from Cons.IH[OF Cons.prems(1) r] ascii_compatible_count[OF Cons.prems(1) b] bs
  show ?case by auto
qed

lemma join_Cons: "join sep (x # xs) = (if xs = [] then x else x @ sep @ join sep xs)"
  by (cases xs) auto

lemma codec_tab: "ascii_compatible encoding \<Longrightarrow> encoding TAB = Some [9]"
  by (simp add: ascii_compatible_def)

lemma encode_tab: "ascii_compatible encoding \<Longrightarrow> encode encoding [TAB] = Inr [9]"
  by (simp add: ascii_compatible_def)

lemma encode_fields_shift:
  "row_keeps_discipline encs els \<Longrightarrow>
   encode_fields encs els lz =
     (case encode_fields encs els [] of Inl e \<Rightarrow> Inl e | Inr (ss, new) \<Rightarrow> Inr (ss, lz @ new))"
proof (induction encs arbitrary: els lz)
  case Nil
  then show ?case by simp
next
  case (Cons enc encs)
  show ?case
  proof (cases els)
    case Nil
    then show ?thesis by simp
  next
    case (Cons el els')
    with Cons.prems have kd: "keeps_discipline enc el" and rest: "row_keeps_discipline encs els'" by auto
    from kd have shift: "enc el l = (case enc el [] of Inl e \<Rightarrow> Inl e | Inr (r, new) \<Rightarrow> Inr (r, l @ new))" for l
      unfolding keeps_discipline_def by blast
    note ih = Cons.IH[OF rest]
    show ?thesis
    proof (cases "enc el []")
      case (Inl e)
      then show ?thesis using shift[of lz] Cons by simp
    next
      case (Inr p)
      obtain r n1 where p: "p = (r, n1)" by (cases p)
      show ?thesis
      proof (cases "format_value r")
        case None
        then show ?thesis using shift[of lz] Inr p Cons by simp
      next
        case (Some s)
        show ?thesis
        proof (cases "encode_fields encs els' []")
          case (Inl e)
          then show ?thesis
            using shift[of lz] Inr p Some Cons ih[of "lz @ n1"] ih[of n1] by simp
        next
          case (Inr q)
          obtain ss new where q: "q = (ss, new)" by (cases q)
          show ?thesis
            using shift[of lz] \<open>enc el [] = Inr p\<close> p Some Cons ih[of "lz @ n1"] ih[of n1] Inr q by simp
        qed
      qed
    qed
  qed
qed


lemma encode_fields_resolve:
  assumes ac: "ascii_compatible encoding"
  shows "row_keeps_discipline encs els \<Longrightarrow> encode_fields encs els [] = Inr (ss, new)
     \<Longrightarrow> encode encoding (join [TAB] ss) = Inr bs
     \<Longrightarrow> count_list bs LAZY_PLACEHOLDER_BYTE = length new
         \<and> (\<exists>fs. resolve_fields encoding encs els = Inr fs \<and> length fs = length ss
                \<and> join [9] fs = subst bs new)"
proof (induction encs arbitrary: els ss new bs)
  case Nil
  then show ?case by simp
next
  case (Cons enc encs)
  show ?case
  proof (cases els)
    case Nil
    with Cons.prems show ?thesis by simp
  next
    case els: (Cons el els')
    with Cons.prems have kd: "keeps_discipline enc el" and rest: "row_keeps_discipline encs els'" by auto
    from Cons.prems(2) els obtain r n1 s q where
      r: "enc el [] = Inr (r, n1)" and s: "format_value r = Some s"
      and q: "encode_fields encs els' n1 = Inr q" and ssq: "ss = s # fst q" and newq: "new = snd q"
      by (auto split: sum.splits option.splits prod.splits)
    obtain ss' new' where rec: "encode_fields encs els' [] = Inr (ss', new')"
      and ss: "ss = s # ss'" and new: "new = n1 @ new'"
      using q ssq newq encode_fields_shift[OF rest, of n1]
      by (cases "encode_fields encs els' []") (auto split: prod.splits)
    from kd r s have cnt_s: "count_list s NUL = length n1"
      unfolding keeps_discipline_def by blast
    show ?thesis
    proof (cases "ss' = []")
      case True
      from Cons.IH[OF rest rec, of "[]"] True
      have new': "new' = []" and fs': "\<exists>fs. resolve_fields encoding encs els' = Inr fs \<and> length fs = 0"
        by auto
      from True ss Cons.prems(3) have enc_s: "encode encoding s = Inr bs" by simp
      from encode_count[OF ac enc_s] cnt_s have "count_list bs LAZY_PLACEHOLDER_BYTE = length n1" by simp
      moreover have "resolve_field encoding enc el = Inr (subst bs n1)"
        using r s enc_s by (simp add: resolve_field_def)
      ultimately show ?thesis
        using fs' new new' ss True els by auto
    next
      case False
      then have j: "join [TAB] ss = s @ [TAB] @ join [TAB] ss'"
        using ss by (simp add: join_Cons)
      from Cons.prems(3) obtain b1 bs' where
        b1: "encode encoding s = Inr b1" and bs': "encode encoding (join [TAB] ss') = Inr bs'"
        and bs: "bs = b1 @ [9] @ bs'"
        unfolding j encode_append using encode_tab[OF ac]
        by (auto split: sum.splits)
      from Cons.IH[OF rest rec bs'] obtain fs' where
        c': "count_list bs' LAZY_PLACEHOLDER_BYTE = length new'"
        and fs': "resolve_fields encoding encs els' = Inr fs'" and len: "length fs' = length ss'"
        and jn: "join [9] fs' = subst bs' new'"
        by auto
      from encode_count[OF ac b1] cnt_s have c1: "count_list b1 LAZY_PLACEHOLDER_BYTE = length n1" by simp
      have rf: "resolve_field encoding enc el = Inr (subst b1 n1)"
        using r s b1 by (simp add: resolve_field_def)
      have "subst bs new = subst b1 n1 @ subst ([9] @ bs') new'"
        unfolding bs new using subst_append[OF c1, of "[9] @ bs'" new'] by simp
      also have "subst ([9] @ bs') new' = [9] @ subst bs' new'"
        by (rule subst_plain) (simp add: LAZY_PLACEHOLDER_BYTE_def)
      finally have "subst bs new = subst b1 n1 @ [9] @ join [9] fs'"
        using jn by simp
      moreover from len False have "fs' \<noteq> []" by auto
      ultimately have "join [9] (subst b1 n1 # fs') = subst bs new"
        by (simp add: join_Cons)
      moreover have "count_list bs LAZY_PLACEHOLDER_BYTE = length new"
        using c1 c' bs new by (simp add: LAZY_PLACEHOLDER_BYTE_def)
      ultimately show ?thesis
        using rf fs' len ss els by simp
    qed
  qed
qed

lemma resolve_fields_encode:
  assumes ac: "ascii_compatible encoding"
  shows "row_keeps_discipline encs els \<Longrightarrow> resolve_fields encoding encs els = Inr fs
     \<Longrightarrow> \<exists>ss new bs. encode_fields encs els [] = Inr (ss, new)
           \<and> encode encoding (join [TAB] ss) = Inr bs"
proof (induction encs arbitrary: els fs)
  case Nil
  then show ?case by simp
next
  case (Cons enc encs)
  show ?case
  proof (cases els)
    case Nil
    then show ?thesis by simp
  next
    case els: (Cons el els')
    with Cons.prems have kd: "keeps_discipline enc el" and rest: "row_keeps_discipline encs els'" by auto
    from Cons.prems(2) els obtain f1 fs' where
      f1: "resolve_field encoding enc el = Inr f1" and fs': "resolve_fields encoding encs els' = Inr fs'"
      by (auto split: sum.splits)
    from f1 obtain r n1 s b1 where
      r: "enc el [] = Inr (r, n1)" and s: "format_value r = Some s" and b1: "encode encoding s = Inr b1"
      by (auto simp: resolve_field_def split: sum.splits option.splits prod.splits)
    from Cons.IH[OF rest fs'] obtain ss' new' bs' where
      rec: "encode_fields encs els' [] = Inr (ss', new')" and bs': "encode encoding (join [TAB] ss') = Inr bs'"
      by auto
    have "encode_fields (enc # encs) els [] = Inr (s # ss', n1 @ new')"
      using r s rec els encode_fields_shift[OF rest, of n1] by simp
    moreover have "\<exists>bs. encode encoding (join [TAB] (s # ss')) = Inr bs"
      using b1 bs' codec_tab[OF ac] by (simp add: join_Cons encode_append)
    ultimately show ?thesis by blast
  qed
qed

lemma encode_row_shift:
  "row_keeps_discipline encs els \<Longrightarrow>
   encode_row encoding encs els lz =
     (case encode_row encoding encs els [] of Inl e \<Rightarrow> Inl e | Inr (bs, new) \<Rightarrow> Inr (bs, lz @ new))"
  using encode_fields_shift[of encs els lz]
  by (auto simp: encode_row_def split: sum.splits)

lemma encode_row_resolve:
  assumes "ascii_compatible encoding" "row_keeps_discipline encs els"
    and "encode_row encoding encs els [] = Inr (bs, new)"
  shows "count_list bs LAZY_PLACEHOLDER_BYTE = length new
         \<and> (\<exists>fs. resolve_fields encoding encs els = Inr fs \<and> join [9] fs = subst bs new)"
proof -
  from assms(3) obtain ss where "encode_fields encs els [] = Inr (ss, new)"
    and "encode encoding (join [TAB] ss) = Inr bs"
    by (auto simp: encode_row_def split: sum.splits prod.splits)
  from encode_fields_resolve[OF assms(1,2) this] show ?thesis by blast
qed

lemma resolve_fields_encode_row:
  assumes "ascii_compatible encoding" "row_keeps_discipline encs els"
    and "resolve_fields encoding encs els = Inr fs"
  shows "\<exists>bs new. encode_row encoding encs els [] = Inr (bs, new)"
  using resolve_fields_encode[OF assms] by (auto simp: encode_row_def)

lemma encode_fields_writable:
  "row_keeps_discipline encs els \<Longrightarrow> row_writable encs els
     \<Longrightarrow> encode_fields encs els [] = Inr (ss, new) \<Longrightarrow> entries_writable new"
proof (induction encs arbitrary: els ss new)
  case Nil
  then show ?case by (simp add: entries_writable_def)
next
  case (Cons enc encs)
  show ?case
  proof (cases els)
    case Nil
    with Cons.prems show ?thesis by (simp add: entries_writable_def)
  next
    case els: (Cons el els')
    with Cons.prems have rest: "row_keeps_discipline encs els'" and wrest: "row_writable encs els'"
      by auto
    from Cons.prems(3) els obtain r n1 s q where
      r: "enc el [] = Inr (r, n1)" and s: "format_value r = Some s"
      and q: "encode_fields encs els' n1 = Inr q" and newq: "new = snd q"
      by (auto split: sum.splits option.splits prod.splits)
    obtain ss' new' where rec: "encode_fields encs els' [] = Inr (ss', new')"
      and new: "new = n1 @ new'"
      using q newq encode_fields_shift[OF rest, of n1]
      by (cases "encode_fields encs els' []") (auto split: prod.splits)
    from Cons.prems(2) els r have "entries_writable n1" by simp
    with Cons.IH[OF rest wrest rec] new show ?thesis
      by (simp add: entries_writable_append)
  qed
qed

lemma encode_row_writable:
  assumes "row_keeps_discipline encs els" "row_writable encs els"
    and "encode_row encoding encs els [] = Inr (bs, new)"
  shows "entries_writable new"
proof -
  from assms(3) obtain ss where "encode_fields encs els [] = Inr (ss, new)"
    by (auto simp: encode_row_def split: sum.splits prod.splits)
  from encode_fields_writable[OF assms(1,2) this] show ?thesis .
qed

section \<open>The bytes that reach the sink\<close>

lemma delivered_append: "delivered (a @ b) = delivered a @ delivered b"
  by (induction a rule: delivered.induct) auto

lemma delivered_writes: "delivered (map PipeWrite ws) = concat ws"
  by (induction ws) auto

lemma count_zero_drop:
  "count_list xs x = 0 \<Longrightarrow> count_list (drop n xs) x = 0"
  by (metis count_list_0_iff in_set_dropD)

lemma copy_from_step_small:
  assumes "encode_row encoding encs (get ob) (lazy st) = Inr (row, lazy')"
    and "P = payload st @ row @ [10]" and "length P \<le> 65535"
  shows "copy_from_step tname columns get encs encoding st ob = (st\<lparr>payload := P, lazy := lazy'\<rparr>, None)"
  using assms by (simp add: copy_from_step_def Let_def)

lemma copy_from_step_flush_lazy:
  assumes "encode_row encoding encs (get ob) (lazy st) = Inr (row, lazy')"
    and "P = payload st @ row @ [10]" and "length P > 65535" and "lazy' \<noteq> []"
    and "write_lazy P lazy' = (ws, err)"
  shows "\<exists>st'. copy_from_step tname columns get encs encoding st ob = (st', err)
           \<and> use_thread st'
           \<and> events st' = events st @ (if use_thread st then [] else [Spawn tname columns]) @ map PipeWrite ws
           \<and> (err = None \<longrightarrow> payload st' = [] \<and> lazy st' = [])"
  using assms by (cases err) (simp_all add: copy_from_step_def Let_def)

lemma copy_from_step_flush_chunks:
  assumes "encode_row encoding encs (get ob) (lazy st) = Inr (row, [])"
    and "P = payload st @ row @ [10]" and "length P > 65535"
    and "write_chunks P 0 = (ws, pos)"
  shows "\<exists>st'. copy_from_step tname columns get encs encoding st ob = (st', None)
           \<and> use_thread st'
           \<and> events st' = events st @ (if use_thread st then [] else [Spawn tname columns]) @ map PipeWrite ws
           \<and> payload st' = drop pos P \<and> lazy st' = []"
  using assms by (simp add: copy_from_step_def Let_def)

lemma copy_from_step_run:
  assumes ac: "ascii_compatible encoding" and kd: "row_keeps_discipline encs (get ob)"
    and inv: "count_list (payload st) LAZY_PLACEHOLDER_BYTE = length (lazy st)"
    and res: "resolve_fields encoding encs (get ob) = Inr fs"
  shows "\<exists>st' err. copy_from_step tname columns get encs encoding st ob = (st', err)
           \<and> (err = None \<longrightarrow>
                count_list (payload st') LAZY_PLACEHOLDER_BYTE = length (lazy st')
                \<and> delivered (events st') @ subst (payload st') (lazy st')
                    = delivered (events st) @ subst (payload st) (lazy st) @ join [9] fs @ [10]
                \<and> (entries_writable (lazy st) \<and> row_writable encs (get ob)
                      \<longrightarrow> entries_writable (lazy st')))
           \<and> (entries_writable (lazy st) \<and> row_writable encs (get ob) \<longrightarrow> err = None)"
proof -
  from resolve_fields_encode_row[OF ac kd res] obtain bs new where
    row0: "encode_row encoding encs (get ob) [] = Inr (bs, new)" by auto
  from encode_row_resolve[OF ac kd row0] res have
    cnt: "count_list bs LAZY_PLACEHOLDER_BYTE = length new" and jn: "join [9] fs = subst bs new"
    by auto
  obtain P lazy' where P: "P = payload st @ bs @ [10]" and lazy': "lazy' = lazy st @ new"
    by simp
  have row: "encode_row encoding encs (get ob) (lazy st) = Inr (bs, lazy')"
    using encode_row_shift[OF kd, of encoding "lazy st"] row0 lazy' by simp
  have cnt': "count_list P LAZY_PLACEHOLDER_BYTE = length lazy'"
    using inv cnt P lazy' by (auto simp: LAZY_PLACEHOLDER_BYTE_def)
  have wr: "entries_writable lazy'" if "entries_writable (lazy st) \<and> row_writable encs (get ob)"
    using that encode_row_writable[OF kd _ row0] lazy' by (simp add: entries_writable_append)
  have "subst (bs @ [10]) (new @ []) = subst bs new @ subst [10] []"
    by (rule subst_append[OF cnt])
  then have "subst (bs @ [10]) new = subst bs new @ [10]"
    by (simp add: LAZY_PLACEHOLDER_BYTE_def)
  with subst_append[OF inv, of "bs @ [10]" new]
  have sub: "subst P lazy' = subst (payload st) (lazy st) @ join [9] fs @ [10]"
    using jn P lazy' by auto
  show ?thesis
  proof (cases "length P > 65535")
    case False
    then have "copy_from_step tname columns get encs encoding st ob
                 = (st\<lparr>payload := P, lazy := lazy'\<rparr>, None)"
      using copy_from_step_small[where get=get and ob=ob, OF row P] by simp
    then show ?thesis using cnt' sub wr by simp
  next
    case True
    show ?thesis
    proof (cases "lazy' = []")
      case False
      from write_lazy_run[of lazy' P] cnt' obtain ws err where
        ws: "write_lazy P lazy' = (ws, err)" and cws: "err = None \<longrightarrow> concat ws = subst P lazy'"
        and bad: "\<forall>e. err = Some e \<longrightarrow> (\<exists>(writer, byte_object) \<in> set lazy'. snd (writer byte_object) = Some e)"
        by auto
      from copy_from_step_flush_lazy[where get=get and ob=ob, OF row P True False ws, of tname columns]
      obtain st' where
        step: "copy_from_step tname columns get encs encoding st ob = (st', err)"
        and ev: "events st' = events st @ (if use_thread st then [] else [Spawn tname columns]) @ map PipeWrite ws"
        and cleared: "err = None \<longrightarrow> payload st' = [] \<and> lazy st' = []"
        by auto
      have "err = None" if "entries_writable (lazy st) \<and> row_writable encs (get ob)"
        using wr[OF that] bad by (cases err) (auto simp: entries_writable_def)
      moreover have "err = None \<longrightarrow>
                count_list (payload st') LAZY_PLACEHOLDER_BYTE = length (lazy st')
                \<and> delivered (events st') @ subst (payload st') (lazy st')
                    = delivered (events st) @ subst (payload st) (lazy st) @ join [9] fs @ [10]
                \<and> entries_writable (lazy st')"
        using cleared ev cws sub
        by (auto simp: delivered_append delivered_writes entries_writable_def)
      ultimately show ?thesis using step by blast
    next
      case lz: True
      obtain ws pos where wc: "write_chunks P 0 = (ws, pos)"
        by (cases "write_chunks P 0")
      from write_chunks_concat[OF wc] have cc: "concat ws @ drop pos P = P" by simp
      from cnt' lz have c0: "count_list (drop pos P) LAZY_PLACEHOLDER_BYTE = 0"
        by (simp add: count_zero_drop)
      from row lz have row': "encode_row encoding encs (get ob) (lazy st) = Inr (bs, [])" by simp
      from copy_from_step_flush_chunks[where get=get and ob=ob, OF row' P True wc, of tname columns] obtain st' where
        "copy_from_step tname columns get encs encoding st ob = (st', None)"
        "events st' = events st @ (if use_thread st then [] else [Spawn tname columns]) @ map PipeWrite ws"
        "payload st' = drop pos P" "lazy st' = []"
        by auto
      moreover have "subst P lazy' = P"
        using lz by (simp add: subst_empty)
      ultimately show ?thesis
        using cc sub c0
        by (auto simp: delivered_append delivered_writes subst_empty entries_writable_def)
    qed
  qed
qed

lemma copy_from_step_error:
  assumes ac: "ascii_compatible encoding" and kd: "row_keeps_discipline encs (get ob)"
    and res: "resolve_fields encoding encs (get ob) = Inl e"
  shows "\<exists>e'. copy_from_step tname columns get encs encoding st ob = (st, Some e')"
proof (cases "encode_row encoding encs (get ob) []")
  case (Inl e')
  then have "encode_row encoding encs (get ob) (lazy st) = Inl e'"
    using encode_row_shift[OF kd, of encoding "lazy st"] by simp
  then show ?thesis by (simp add: copy_from_step_def)
next
  case (Inr p)
  obtain bs new where "p = (bs, new)" by (cases p)
  with Inr encode_row_resolve[OF ac kd, of bs new] res show ?thesis by auto
qed

lemma copy_from_loop_run:
  assumes ac: "ascii_compatible encoding"
  shows "\<forall>ob \<in> set data. row_keeps_discipline encs (get ob)
     \<Longrightarrow> count_list (payload st) LAZY_PLACEHOLDER_BYTE = length (lazy st)
     \<Longrightarrow> resolve_rows encoding encs (map get data) = Inr bs
     \<Longrightarrow> \<exists>st' err. copy_from_loop tname columns get encs encoding st data = (st', err)
           \<and> (err = None \<longrightarrow>
                count_list (payload st') LAZY_PLACEHOLDER_BYTE = length (lazy st')
                \<and> delivered (events st') @ subst (payload st') (lazy st')
                    = delivered (events st) @ subst (payload st) (lazy st) @ bs
                \<and> (entries_writable (lazy st) \<and> (\<forall>ob \<in> set data. row_writable encs (get ob))
                      \<longrightarrow> entries_writable (lazy st')))
           \<and> (entries_writable (lazy st) \<and> (\<forall>ob \<in> set data. row_writable encs (get ob))
                 \<longrightarrow> err = None)"
proof (induction data arbitrary: st bs)
  case Nil
  then show ?case by simp
next
  case (Cons ob data)
  from Cons.prems(3) obtain fs bs' where
    fs: "resolve_fields encoding encs (get ob) = Inr fs"
    and bs': "resolve_rows encoding encs (map get data) = Inr bs'"
    and bs: "bs = join [9] fs @ [10] @ bs'"
    by (auto split: sum.splits)
  from Cons.prems(1) have kd: "row_keeps_discipline encs (get ob)"
    and kds: "\<forall>ob \<in> set data. row_keeps_discipline encs (get ob)" by auto
  let ?W = "entries_writable (lazy st) \<and> (\<forall>ob \<in> set (ob # data). row_writable encs (get ob))"
  from copy_from_step_run[where get=get and ob=ob, OF ac kd Cons.prems(2) fs, of tname columns]
  obtain st1 e1 where
    step: "copy_from_step tname columns get encs encoding st ob = (st1, e1)"
    and ok1: "e1 = None \<longrightarrow>
                count_list (payload st1) LAZY_PLACEHOLDER_BYTE = length (lazy st1)
                \<and> delivered (events st1) @ subst (payload st1) (lazy st1)
                    = delivered (events st) @ subst (payload st) (lazy st) @ join [9] fs @ [10]
                \<and> (entries_writable (lazy st) \<and> row_writable encs (get ob)
                      \<longrightarrow> entries_writable (lazy st1))"
    and w1: "entries_writable (lazy st) \<and> row_writable encs (get ob) \<longrightarrow> e1 = None"
    by blast
  show ?case
  proof (cases e1)
    case (Some e)
    with step have "copy_from_loop tname columns get encs encoding st (ob # data) = (st1, Some e)"
      by simp
    moreover from Some w1 have "\<not> ?W" by auto
    ultimately show ?thesis by auto
  next
    case None
    with ok1 have inv1: "count_list (payload st1) LAZY_PLACEHOLDER_BYTE = length (lazy st1)"
      and abs1: "delivered (events st1) @ subst (payload st1) (lazy st1)
               = delivered (events st) @ subst (payload st) (lazy st) @ join [9] fs @ [10]"
      and wr1: "entries_writable (lazy st) \<and> row_writable encs (get ob) \<longrightarrow> entries_writable (lazy st1)"
      by auto
    from Cons.IH[OF kds inv1 bs'] obtain st' err where
      loop: "copy_from_loop tname columns get encs encoding st1 data = (st', err)"
      and ok: "err = None \<longrightarrow>
                count_list (payload st') LAZY_PLACEHOLDER_BYTE = length (lazy st')
                \<and> delivered (events st') @ subst (payload st') (lazy st')
                    = delivered (events st1) @ subst (payload st1) (lazy st1) @ bs'
                \<and> (entries_writable (lazy st1) \<and> (\<forall>ob \<in> set data. row_writable encs (get ob))
                      \<longrightarrow> entries_writable (lazy st'))"
      and w: "entries_writable (lazy st1) \<and> (\<forall>ob \<in> set data. row_writable encs (get ob)) \<longrightarrow> err = None"
      by blast
    have run: "copy_from_loop tname columns get encs encoding st (ob # data) = (st', err)"
      using step None loop by simp
    have "(delivered (events st1) @ subst (payload st1) (lazy st1)) @ bs'
            = delivered (events st) @ subst (payload st) (lazy st) @ bs"
      unfolding abs1 bs by simp
    with ok have "err = None \<longrightarrow>
                count_list (payload st') LAZY_PLACEHOLDER_BYTE = length (lazy st')
                \<and> delivered (events st') @ subst (payload st') (lazy st')
                    = delivered (events st) @ subst (payload st) (lazy st) @ bs
                \<and> (?W \<longrightarrow> entries_writable (lazy st'))"
      using wr1 by auto
    moreover have "?W \<longrightarrow> err = None"
      using w wr1 by auto
    ultimately show ?thesis using run by blast
  qed
qed

lemma copy_from_loop_error:
  assumes ac: "ascii_compatible encoding"
  shows "\<forall>ob \<in> set data. row_keeps_discipline encs (get ob)
     \<Longrightarrow> count_list (payload st) LAZY_PLACEHOLDER_BYTE = length (lazy st)
     \<Longrightarrow> resolve_rows encoding encs (map get data) = Inl e
     \<Longrightarrow> \<exists>st' e'. copy_from_loop tname columns get encs encoding st data = (st', Some e')"
proof (induction data arbitrary: st)
  case Nil
  then show ?case by simp
next
  case (Cons ob data)
  from Cons.prems(1) have kd: "row_keeps_discipline encs (get ob)"
    and kds: "\<forall>ob \<in> set data. row_keeps_discipline encs (get ob)" by auto
  show ?case
  proof (cases "resolve_fields encoding encs (get ob)")
    case (Inl e1)
    from copy_from_step_error[where get=get and ob=ob, OF ac kd Inl, of tname columns st] show ?thesis by auto
  next
    case (Inr fs)
    with Cons.prems(3) have rest: "resolve_rows encoding encs (map get data) = Inl e"
      by (auto split: sum.splits)
    from copy_from_step_run[where get=get and ob=ob, OF ac kd Cons.prems(2) Inr, of tname columns] obtain st1 e1 where
      step: "copy_from_step tname columns get encs encoding st ob = (st1, e1)"
      and inv1: "e1 = None \<longrightarrow> count_list (payload st1) LAZY_PLACEHOLDER_BYTE = length (lazy st1)"
      by blast
    show ?thesis
    proof (cases e1)
      case None
      with inv1 Cons.IH[OF kds _ rest, of st1] step show ?thesis by auto
    next
      case (Some e2)
      with step show ?thesis by auto
    qed
  qed
qed





section \<open>The binary encoders\<close>

lemma b2a_hex_append: "b2a_hex (a @ b) = b2a_hex a @ b2a_hex b"
  by (simp add: b2a_hex_def)

lemma concat_take_drop: "concat (take k (drop pos xs)) @ concat (drop (pos + k) xs) = concat (drop pos xs)"
proof -
  have "take k (drop pos xs) @ drop (pos + k) xs = drop pos xs"
    by (metis add.commute append_take_drop_id drop_drop)
  then show ?thesis by (metis concat_append)
qed

lemma lazy_binary_loop_bytes:
  "v = PBytes b \<Longrightarrow> n = length b
   \<Longrightarrow> \<exists>ws. lazy_binary_loop v n pos = (ws, None) \<and> concat ws = b2a_hex (drop pos b)"
proof (induction v n pos rule: lazy_binary_loop.induct)
  case (1 v length_v byte_pos)
  show ?case
  proof (cases "byte_pos < length_v")
    case True
    have sl: "b2a_hex_buffer (getslice v byte_pos (byte_pos + 65536))
                = Inr (b2a_hex (take 65536 (drop byte_pos b)))"
      using "1.prems" by simp
    from "1.IH"[OF True sl "1.prems"] obtain ws where
      ws: "lazy_binary_loop v length_v (byte_pos + 65536) = (ws, None)"
      and cws: "concat ws = b2a_hex (drop (byte_pos + 65536) b)" by auto
    have "b2a_hex (take 65536 (drop byte_pos b)) @ b2a_hex (drop (byte_pos + 65536) b)
            = b2a_hex (drop byte_pos b)"
      unfolding b2a_hex_append[symmetric]
      by (metis add.commute append_take_drop_id drop_drop)
    with True sl ws cws show ?thesis
      by (subst lazy_binary_loop.simps) simp
  next
    case False
    with "1.prems" show ?thesis by (subst lazy_binary_loop.simps) (simp add: b2a_hex_def)
  qed
qed

lemma lazy_binary_loop_memoryview:
  "v = PMemoryview items True \<Longrightarrow> n = length items
   \<Longrightarrow> \<exists>ws. lazy_binary_loop v n pos = (ws, None) \<and> concat ws = b2a_hex (concat (drop pos items))"
proof (induction v n pos rule: lazy_binary_loop.induct)
  case (1 v length_v byte_pos)
  show ?case
  proof (cases "byte_pos < length_v")
    case True
    have sl: "b2a_hex_buffer (getslice v byte_pos (byte_pos + 65536))
                = Inr (b2a_hex (concat (take 65536 (drop byte_pos items))))"
      using "1.prems" by simp
    from "1.IH"[OF True sl "1.prems"] obtain ws where
      ws: "lazy_binary_loop v length_v (byte_pos + 65536) = (ws, None)"
      and cws: "concat ws = b2a_hex (concat (drop (byte_pos + 65536) items))" by auto
    have "b2a_hex (concat (take 65536 (drop byte_pos items)))
            @ b2a_hex (concat (drop (byte_pos + 65536) items))
            = b2a_hex (concat (drop byte_pos items))"
      unfolding b2a_hex_append[symmetric] concat_take_drop ..
    with True sl ws cws show ?thesis
      by (subst lazy_binary_loop.simps) simp
  next
    case False
    with "1.prems" show ?thesis by (subst lazy_binary_loop.simps) (simp add: b2a_hex_def)
  qed
qed

lemma lazy_binary_contiguous:
  assumes "contiguous_buffer v" "tobytes v = Some b"
  shows "\<exists>ws. lazy_binary v = (ws, None) \<and> concat ws = b2a_hex b"
proof (cases v)
  case (PBytes b')
  with assms lazy_binary_loop_bytes[OF PBytes refl, of 0] show ?thesis
    by (auto simp: lazy_binary_def)
next
  case (PMemoryview items c)
  with assms lazy_binary_loop_memoryview[of v items "length items" 0] show ?thesis
    by (auto simp: lazy_binary_def)
qed (use assms in simp_all)

lemma lazy_binary_strided: "lazy_binary (PMemoryview items False) = ([], Some BufferError)"
  by (simp add: lazy_binary_def lazy_binary_loop.simps[of _ _ 0])

lemma lazy_binary_writable: "snd (lazy_binary v) = None \<longleftrightarrow> contiguous_buffer v"
proof (cases "contiguous_buffer v")
  case True
  then obtain b where "tobytes v = Some b" by (cases v) simp_all
  from lazy_binary_contiguous[OF True this] True show ?thesis by auto
next
  case False
  then show ?thesis
    by (cases v) (simp_all add: lazy_binary_strided, simp_all add: lazy_binary_def)
qed

lemma hexdigit_bounds: "n < 16 \<Longrightarrow> 0 < hexdigit n \<and> hexdigit n < 128"
  by (simp add: hexdigit_def)

lemma byte_nibbles: "unat (b :: byte) div 16 < 16 \<and> unat b mod 16 < 16"
proof -
  have "unat b < 256" using unsigned_less[of b, where 'a = nat] by simp
  then show ?thesis by simp
qed


lemma hex_ascii: "c \<in> set (hex v) \<Longrightarrow> 0 < c \<and> c < 128"
  using hexdigit_bounds byte_nibbles by (auto simp: hex_def)





lemma count_hex: "count_list (hex v) NUL = 0"
  using hex_ascii[of 0 v] by (auto simp: count_list_0_iff)

lemma Binary_buffer:
  assumes "tobytes v = Some b" "py_len v = Some n"
  shows "Binary v lz = (if n > 4096
                        then Inr (PStr (HEX_PREFIX @ LAZY_PLACEHOLDER), lz @ [(lazy_binary, v)])
                        else Inr (PStr (HEX_PREFIX @ hex b), lz))"
    and "BinaryOrNone v lz = Binary v lz"
  using assms by (cases v; simp add: isinstance_def issubclass_def)+

lemma Binary_other:
  assumes "tobytes v = None"
  shows "Binary v lz = Inl TypeError"
    and "v \<noteq> PNone \<Longrightarrow> BinaryOrNone v lz = Inl TypeError"
  using assms by (cases v; simp add: isinstance_def issubclass_def)+

lemma tobytes_py_len: "tobytes v = Some b \<Longrightarrow> \<exists>n. py_len v = Some n"
  by (cases v) simp_all

lemma keeps_discipline_Binary: "keeps_discipline Binary v"
proof (cases "tobytes v")
  case None
  then show ?thesis by (simp add: keeps_discipline_def Binary_other del: Binary.simps)
next
  case (Some b)
  from tobytes_py_len[OF Some] obtain n where "py_len v = Some n" by auto
  with Some show ?thesis
    by (simp add: keeps_discipline_def Binary_buffer HEX_PREFIX_def LAZY_PLACEHOLDER_def
        count_hex del: Binary.simps)
qed








lemma writable_Binary:
  assumes bv: "tobytes v = Some b" and ln: "py_len v = Some n"
  shows "row_writable [Binary] [v] \<longleftrightarrow> (n > 4096 \<longrightarrow> contiguous_buffer v)"
    and "row_writable [BinaryOrNone] [v] \<longleftrightarrow> (n > 4096 \<longrightarrow> contiguous_buffer v)"
  by (simp_all add: Binary_buffer[OF bv ln] entries_writable_def lazy_binary_writable
      del: Binary.simps BinaryOrNone.simps)


lemma row_writable_Cons:
  "row_writable (enc # encs) (el # els) \<longleftrightarrow> row_writable [enc] [el] \<and> row_writable encs els"
  by simp







section \<open>Deferral is transparent\<close>

lemma byte_of_nat_nonzero: "0 < n \<Longrightarrow> n < 256 \<Longrightarrow> (of_nat n :: byte) \<noteq> 0"
  by (auto simp: word_of_nat_eq_0_iff dest: dvd_imp_le)

lemma ascii_compatible_ascii: "ascii_compatible ascii"
  by (simp add: ascii_compatible_def ascii_def)

lemma ascii_compatible_iso8859_1: "ascii_compatible iso8859_1"
  by (auto simp: ascii_compatible_def iso8859_1_def LAZY_PLACEHOLDER_BYTE_def byte_of_nat_nonzero
      split: if_splits)

lemma byte_sum_nonzero:
  "(of_nat k + of_nat m :: byte) = 0 \<Longrightarrow> 0 < k \<Longrightarrow> k + m < 256 \<Longrightarrow> False"
  using byte_of_nat_nonzero[of "k + m"] by simp

lemma utf_8_lead_nonzero:
  "(128 + of_nat m :: byte) = 0 \<Longrightarrow> m < 64 \<Longrightarrow> False"
  "(192 + of_nat m :: byte) = 0 \<Longrightarrow> m < 32 \<Longrightarrow> False"
  "(224 + of_nat m :: byte) = 0 \<Longrightarrow> m < 16 \<Longrightarrow> False"
  "(240 + of_nat m :: byte) = 0 \<Longrightarrow> m < 16 \<Longrightarrow> False"
  using byte_sum_nonzero[of 128 m] byte_sum_nonzero[of 192 m] byte_sum_nonzero[of 224 m]
    byte_sum_nonzero[of 240 m]
  by simp_all

lemma ascii_compatible_utf_8: "ascii_compatible utf_8"
  unfolding ascii_compatible_def
proof (intro conjI allI impI)
  fix c :: nat assume "c < 128"
  then show "utf_8 c = Some [of_nat c]" by (simp add: utf_8_def)
next
  fix c :: nat and bs assume c: "128 \<le> c" and bs: "utf_8 c = Some bs"
  have d: "c < 2048 \<Longrightarrow> c div 64 < 32" "c < 65536 \<Longrightarrow> c div 4096 < 16"
    "c < 1114112 \<Longrightarrow> c div 262144 < 16"
    by simp_all
  have m: "c mod 64 < 64" "c div 64 mod 64 < 64" "c div 4096 mod 64 < 64"
    by simp_all
  from c bs d show "LAZY_PLACEHOLDER_BYTE \<notin> set bs"
    using utf_8_lead_nonzero(1)[OF _ m(1)] utf_8_lead_nonzero(1)[OF _ m(2)]
      utf_8_lead_nonzero(1)[OF _ m(3)] utf_8_lead_nonzero(2)[of "c div 64"]
      utf_8_lead_nonzero(3)[of "c div 4096"] utf_8_lead_nonzero(4)[of "c div 262144"]
    by (auto simp: utf_8_def LAZY_PLACEHOLDER_BYTE_def split: if_splits)
qed


lemma digits_nonzero: "c \<in> set (digits n) \<Longrightarrow> 0 < c"
  by (induction n arbitrary: c rule: digits.induct) (subst (asm) digits.simps, auto split: if_splits)

lemma count_str_of_int: "count_list (str_of_int i) NUL = 0"
  using digits_nonzero[of 0] by (auto simp: str_of_int_def count_list_0_iff)

lemma keeps_discipline_Int: "keeps_discipline Int_enc (PInt i)" "keeps_discipline IntOrNone (PInt i)"
  by (simp_all add: keeps_discipline_def isinstance_def issubclass_def count_str_of_int)

lemma count_esc: "count_list (esc c) NUL = (if c = NUL then 1 else 0)"
  by (simp add: esc_def)

lemma count_concat_esc: "count_list (concat (map esc s)) NUL = count_list s NUL"
  by (induction s) (simp_all add: count_esc)

lemma count_text_escape: "count_list (text_escape s) NUL = count_list s NUL"
  by (simp add: text_escape_charwise count_concat_esc)


lemma keeps_discipline_Text_other: "type_of v \<noteq> C_str \<Longrightarrow> keeps_discipline Text v"
  by (cases v) (simp_all add: keeps_discipline_def)

lemma keeps_discipline_pass_along:
  "(\<And>s. format_value v = Some s \<Longrightarrow> NUL \<notin> set s) \<Longrightarrow> keeps_discipline (pass_along cs) v"
  unfolding keeps_discipline_def pass_along_def
  by (auto simp: count_list_0_iff)

lemma count_NULL: "count_list NULL NUL = 0"
  by (simp add: NULL_def)

lemma keeps_discipline_pass_along_or_none:
  "(\<And>s. format_value v = Some s \<Longrightarrow> NUL \<notin> set s) \<Longrightarrow> keeps_discipline (pass_along_or_none cs) v"
  unfolding keeps_discipline_def pass_along_or_none_def
  by (auto simp: count_list_0_iff NULL_def)

lemma keeps_discipline_TextOrNone:
  "keeps_discipline TextOrNone PNone" "NUL \<notin> set s \<Longrightarrow> keeps_discipline TextOrNone (PStr s)"
proof -
  show "keeps_discipline TextOrNone PNone"
    by (simp add: keeps_discipline_def count_NULL)
  assume "NUL \<notin> set s"
  then have "count_list (text_escape s) NUL = 0"
    unfolding count_text_escape by (simp add: count_list_0_iff)
  then show "keeps_discipline TextOrNone (PStr s)"
    unfolding keeps_discipline_def by auto
qed





lemma encode_row_Text_Binary:
  "encode_row utf_8 [Text, Binary] [PStr [NUL], PBytes (replicate 4097 65)] []
     = Inr ([0, 9, 92, 92, 120, 0], [(lazy_binary, PBytes (replicate 4097 65))])"
  by (simp add: encode_row_def text_escape_def isinstance_def issubclass_def HEX_PREFIX_def
      LAZY_PLACEHOLDER_def utf_8_def)

lemma write_lazy_Text_Binary:
  "write_lazy ([0, 9, 92, 92, 120, 0] @ rest) [(lazy_binary, PBytes (replicate 4097 65))]
     = ([[], b2a_hex (replicate 4097 65), [9, 92, 92, 120, 0] @ rest], None)"
  by (simp add: write_lazy_def index_from_def LAZY_PLACEHOLDER_BYTE_def slice_def lazy_binary_def)






text \<open>
  C3, as stated, fails: a text value holding the NUL character puts a zero byte into the
  row buffer that no encoder emitted as a placeholder. For the row of the text NUL and a
  binary value of 4097 bytes the buffer holds two zero bytes against one lazy entry,
  \<open>write_lazy\<close> writes the hex text where the text column's byte was and copies the
  binary column's placeholder, and that is what \<open>copy_from\<close> hands to the sink.
\<close>

theorem placeholder_byte_from_text:
  "encode_row utf_8 [Text, Binary] [PStr [NUL], PBytes (replicate 4097 65)] []
     = Inr ([0, 9, 92, 92, 120, 0], [(lazy_binary, PBytes (replicate 4097 65))])
   \<and> count_list [0, 9, 92, 92, 120, 0] LAZY_PLACEHOLDER_BYTE = 2
   \<and> write_lazy [0, 9, 92, 92, 120, 0] [(lazy_binary, PBytes (replicate 4097 65))]
       = ([[], b2a_hex (replicate 4097 65), [9, 92, 92, 120, 0]], None)
   \<and> copy_from [] [[PStr [NUL], PBytes (replicate 4097 65)]] [] (\<lambda>x. x) [Text, Binary] utf_8
       = ([SinkCopy (b2a_hex (replicate 4097 65) @ [9, 92, 92, 120, 0, 10]) [] []], None)"
proof -
  note row = encode_row_Text_Binary
  have wl: "write_lazy [0, 9, 92, 92, 120, 0] [(lazy_binary, PBytes (replicate 4097 65))]
       = ([[], b2a_hex (replicate 4097 65), [9, 92, 92, 120, 0]], None)"
    using write_lazy_Text_Binary[of "[]"] by simp
  have "copy_from [] [[PStr [NUL], PBytes (replicate 4097 65)]] [] (\<lambda>x. x) [Text, Binary] utf_8
       = ([SinkCopy (b2a_hex (replicate 4097 65) @ [9, 92, 92, 120, 0, 10]) [] []], None)"
    using write_lazy_Text_Binary[of "[10]"]
    by (simp add: copy_from_def copy_from_step_def row cf_init_def copy_from_finish_def Let_def)
  with row wl show ?thesis by (simp add: LAZY_PLACEHOLDER_BYTE_def)
qed

text \<open>
  C3, amended: under an ASCII-compatible codec, when every encoder call of the batch
  keeps the placeholder discipline (the text of its result holds a NUL character exactly
  for each lazy entry it appended), then after any sequence of records the buffer holds
  as many placeholder bytes as there are pending lazy entries; \<open>write_lazy\<close> on them
  raises only what the writer of a pending entry raises on its object (nothing, when no
  writer does), and when it raises nothing it writes the buffer with the K-th placeholder
  replaced by the K-th entry's output and every other byte copied; the pending entries
  are writable when those of every row are; and what has been written so far followed by
  the substituted buffer is the rows with every field's own deferred value in the place
  of its own placeholder.
\<close>

theorem placeholder_invariant:
  assumes ac: "ascii_compatible encoding"
    and kd: "\<forall>ob \<in> set data. row_keeps_discipline encs (get ob)"
    and loop: "copy_from_loop tname columns get encs encoding cf_init data = (st, None)"
  shows "count_list (payload st) LAZY_PLACEHOLDER_BYTE = length (lazy st)
     \<and> (\<exists>ws err. write_lazy (payload st) (lazy st) = (ws, err)
              \<and> (err = None \<longrightarrow> concat ws = subst (payload st) (lazy st))
              \<and> (entries_writable (lazy st) \<longrightarrow> err = None)
              \<and> (\<forall>e. err = Some e \<longrightarrow>
                    (\<exists>(writer, byte_object) \<in> set (lazy st). snd (writer byte_object) = Some e)))
     \<and> ((\<forall>ob \<in> set data. row_writable encs (get ob)) \<longrightarrow> entries_writable (lazy st))
     \<and> resolve_rows encoding encs (map get data)
          = Inr (delivered (events st) @ subst (payload st) (lazy st))"
proof -
  have init: "count_list (payload cf_init) LAZY_PLACEHOLDER_BYTE = length (lazy cf_init)"
    and winit: "entries_writable (lazy cf_init)"
    by (simp_all add: cf_init_def entries_writable_def)
  show ?thesis
  proof (cases "resolve_rows encoding encs (map get data)")
    case (Inl e)
    from copy_from_loop_error[OF ac kd init Inl, of tname columns] loop show ?thesis by simp
  next
    case (Inr bs)
    from copy_from_loop_run[OF ac kd init Inr, of tname columns] loop winit
    have inv: "count_list (payload st) LAZY_PLACEHOLDER_BYTE = length (lazy st)"
      and abs: "delivered (events st) @ subst (payload st) (lazy st) = bs"
      and wr: "(\<forall>ob \<in> set data. row_writable encs (get ob)) \<longrightarrow> entries_writable (lazy st)"
      by (auto simp: cf_init_def)
    from write_lazy_run[of "lazy st" "payload st"] inv obtain ws err where
      ws: "write_lazy (payload st) (lazy st) = (ws, err)"
      and ok: "err = None \<longrightarrow> concat ws = subst (payload st) (lazy st)"
      and bad: "\<forall>e. err = Some e \<longrightarrow>
                  (\<exists>(writer, byte_object) \<in> set (lazy st). snd (writer byte_object) = Some e)"
      by auto
    have "entries_writable (lazy st) \<longrightarrow> err = None"
      using bad by (cases err) (fastforce simp: entries_writable_def)+
    with ws ok bad have
      "\<exists>ws err. write_lazy (payload st) (lazy st) = (ws, err)
              \<and> (err = None \<longrightarrow> concat ws = subst (payload st) (lazy st))
              \<and> (entries_writable (lazy st) \<longrightarrow> err = None)
              \<and> (\<forall>e. err = Some e \<longrightarrow>
                    (\<exists>(writer, byte_object) \<in> set (lazy st). snd (writer byte_object) = Some e))"
      by blast
    with inv abs wr Inr show ?thesis by simp
  qed
qed

theorem placeholder_invariant_witness:
  "count_list [55, 9, 92, 92, 120, 0, 10] LAZY_PLACEHOLDER_BYTE
     = length [(lazy_binary, PBytes (replicate 4097 65))]
   \<and> entries_writable [(lazy_binary, PBytes (replicate 4097 65))]
   \<and> resolve_rows utf_8 [Int_enc, Binary] [[PInt 7, PBytes (replicate 4097 65)]]
       = Inr (subst [55, 9, 92, 92, 120, 0, 10] [(lazy_binary, PBytes (replicate 4097 65))])"
proof -
  let ?v = "PBytes (replicate 4097 65)"
  let ?data = "[[PInt 7, ?v]]"
  have kd: "\<forall>ob \<in> set ?data. row_keeps_discipline [Int_enc, Binary] ((\<lambda>x. x) ob)"
    by (simp add: keeps_discipline_Int keeps_discipline_Binary del: Binary.simps)
  have w: "\<forall>ob \<in> set ?data. row_writable [Int_enc, Binary] ((\<lambda>x. x) ob)"
    using writable_Binary(1)[of ?v "replicate 4097 65" 4097]
    by (simp add: isinstance_def issubclass_def entries_writable_def del: Binary.simps)
  have loop: "copy_from_loop [] [] (\<lambda>x. x) [Int_enc, Binary] utf_8 cf_init ?data
     = (\<lparr>use_thread = False, payload = [55, 9, 92, 92, 120, 0, 10],
         lazy = [(lazy_binary, ?v)], events = []\<rparr>, None)"
    by (simp add: copy_from_step_def encode_row_def cf_init_def isinstance_def issubclass_def
        str_of_int_def digits.simps HEX_PREFIX_def LAZY_PLACEHOLDER_def utf_8_def Let_def)
  from placeholder_invariant[OF ascii_compatible_utf_8 kd loop] w show ?thesis by simp
qed

section \<open>What a run does to the pipe\<close>

lemma copy_from_step_error_unchanged:
  "encode_row encoding encs (get ob) (lazy st) = Inl e
     \<Longrightarrow> copy_from_step tname columns get encs encoding st ob = (st, Some e)"
  by (simp add: copy_from_step_def)

lemma streaming_extend:
  assumes "streaming tname columns st" "use_thread st'"
    and "events st' = events st @ (if use_thread st then [] else [Spawn tname columns]) @ map PipeWrite ws"
  shows "streaming tname columns st'"
proof (cases "use_thread st")
  case True
  with assms(1) obtain ws0 where "events st = Spawn tname columns # map PipeWrite ws0"
    by (auto simp: streaming_def)
  with assms True have "events st' = Spawn tname columns # map PipeWrite (ws0 @ ws)" by simp
  with assms(2) show ?thesis unfolding streaming_def by (simp only: if_True) blast
next
  case False
  with assms(1) have "events st = []" by (simp add: streaming_def)
  with assms False have "events st' = Spawn tname columns # map PipeWrite ws" by simp
  with assms(2) show ?thesis unfolding streaming_def by (simp only: if_True) blast
qed

lemma copy_from_step_streaming:
  assumes inv: "streaming tname columns st"
    and step: "copy_from_step tname columns get encs encoding st ob = (st', err)"
  shows "streaming tname columns st' \<and> (use_thread st \<longrightarrow> use_thread st')"
proof (cases "encode_row encoding encs (get ob) (lazy st)")
  case (Inl e)
  with step inv show ?thesis by (simp add: copy_from_step_def)
next
  case (Inr p)
  obtain row lazy' where p: "p = (row, lazy')" by (cases p)
  obtain P where P: "P = payload st @ row @ [10]" by simp
  from Inr p have row: "encode_row encoding encs (get ob) (lazy st) = Inr (row, lazy')" by simp
  show ?thesis
  proof (cases "length P > 65535")
    case False
    with copy_from_step_small[where get=get and ob=ob, OF row P, of tname columns] step inv
    show ?thesis by (auto simp: streaming_def)
  next
    case True
    show ?thesis
    proof (cases "lazy' = []")
      case False
      obtain ws e where wl: "write_lazy P lazy' = (ws, e)" by (cases "write_lazy P lazy'")
      from copy_from_step_flush_lazy[where get=get and ob=ob, OF row P True False wl, of tname columns] step
      have "use_thread st'"
        "events st' = events st @ (if use_thread st then [] else [Spawn tname columns]) @ map PipeWrite ws"
        by auto
      with streaming_extend[OF inv] show ?thesis by blast
    next
      case lz: True
      obtain ws pos where wc: "write_chunks P 0 = (ws, pos)" by (cases "write_chunks P 0")
      from row lz have row': "encode_row encoding encs (get ob) (lazy st) = Inr (row, [])" by simp
      from copy_from_step_flush_chunks[where get=get and ob=ob, OF row' P True wc, of tname columns] step
      have "use_thread st'"
        "events st' = events st @ (if use_thread st then [] else [Spawn tname columns]) @ map PipeWrite ws"
        by auto
      with streaming_extend[OF inv] show ?thesis by blast
    qed
  qed
qed

lemma copy_from_loop_streaming:
  "streaming tname columns st
     \<Longrightarrow> copy_from_loop tname columns get encs encoding st data = (st', err)
     \<Longrightarrow> streaming tname columns st' \<and> (use_thread st \<longrightarrow> use_thread st')"
proof (induction data arbitrary: st)
  case Nil
  then show ?case by simp
next
  case (Cons ob data)
  obtain st1 e1 where step: "copy_from_step tname columns get encs encoding st ob = (st1, e1)"
    by (cases "copy_from_step tname columns get encs encoding st ob")
  from copy_from_step_streaming[OF Cons.prems(1) step]
  have s1: "streaming tname columns st1" and u1: "use_thread st \<longrightarrow> use_thread st1" by auto
  show ?case
  proof (cases e1)
    case None
    with step Cons.prems(2) have "copy_from_loop tname columns get encs encoding st1 data = (st', err)"
      by simp
    from Cons.IH[OF s1 this] u1 show ?thesis by blast
  next
    case (Some e)
    with step Cons.prems(2) have "st' = st1" by simp
    with s1 u1 show ?thesis by simp
  qed
qed

lemma copy_from_loop_append:
  "copy_from_loop tname columns get encs encoding st (pre @ post) =
     (case copy_from_loop tname columns get encs encoding st pre of
        (st', Some e) \<Rightarrow> (st', Some e)
      | (st', None) \<Rightarrow> copy_from_loop tname columns get encs encoding st' post)"
  by (induction pre arbitrary: st) (auto split: prod.splits option.splits)

lemma copy_from_finish_thread:
  assumes "use_thread st" "events st = Spawn tname columns # map PipeWrite ws0"
    and "copy_from_finish tname columns st = (evs, err)"
  shows "\<exists>ws. evs = Spawn tname columns # map PipeWrite ws
                  @ (if err = None then [CloseWrite, Join, CloseRead] else [])"
proof -
  obtain ws e2 where w: "(if payload st \<noteq> [] then
                 (if lazy st \<noteq> [] then write_lazy (payload st) (lazy st)
                  else ([payload st], None))
               else ([], None)) = (ws, e2)"
    by fastforce
  show ?thesis
  proof (cases e2)
    case None
    with assms w have "evs = Spawn tname columns # map PipeWrite (ws0 @ ws) @ [CloseWrite, Join, CloseRead]"
      and "err = None"
      by (simp_all add: copy_from_finish_def)
    then show ?thesis by (intro exI[of _ "ws0 @ ws"]) simp
  next
    case (Some e)
    with assms w have "evs = Spawn tname columns # map PipeWrite (ws0 @ ws)" and "err = Some e"
      by (simp_all add: copy_from_finish_def)
    then show ?thesis by (intro exI[of _ "ws0 @ ws"]) simp
  qed
qed

lemma copy_from_finish_memory:
  assumes "\<not> use_thread st" "events st = []"
    and "copy_from_finish tname columns st = (evs, err)"
  shows "evs = [] \<or> (\<exists>bs. evs = [SinkCopy bs tname columns] \<and> err = None)"
proof (cases "payload st \<noteq> [] \<and> lazy st \<noteq> []")
  case True
  obtain ws e2 where w: "write_lazy (payload st) (lazy st) = (ws, e2)"
    by (cases "write_lazy (payload st) (lazy st)")
  with assms True show ?thesis
    by (cases e2) (auto simp: copy_from_finish_def)
next
  case False
  with assms show ?thesis
    by (auto simp: copy_from_finish_def split: if_splits)
qed

lemma copy_from_events:
  assumes run: "copy_from tname data columns get encs encoding = (evs, err)"
  shows "(\<exists>ws. evs = Spawn tname columns # map PipeWrite ws
                  @ (if err = None then [CloseWrite, Join, CloseRead] else []))
         \<or> evs = []
         \<or> (\<exists>bs. evs = [SinkCopy bs tname columns] \<and> err = None)"
proof -
  have init: "streaming tname columns cf_init" by (simp add: streaming_def cf_init_def)
  obtain st e where loop: "copy_from_loop tname columns get encs encoding cf_init data = (st, e)"
    by (cases "copy_from_loop tname columns get encs encoding cf_init data")
  from copy_from_loop_streaming[OF init loop] have str: "streaming tname columns st" by simp
  show ?thesis
  proof (cases e)
    case (Some e')
    with loop run have evs: "evs = events st" and err: "err = Some e'" by (simp_all add: copy_from_def)
    show ?thesis
    proof (cases "use_thread st")
      case True
      with str obtain ws0 where "events st = Spawn tname columns # map PipeWrite ws0"
        unfolding streaming_def by auto
      with evs err have "evs = Spawn tname columns # map PipeWrite ws0
                  @ (if err = None then [CloseWrite, Join, CloseRead] else [])" by simp
      then show ?thesis by blast
    next
      case False
      with str evs have "evs = []" unfolding streaming_def by simp
      then show ?thesis by blast
    qed
  next
    case None
    with loop run have fin: "copy_from_finish tname columns st = (evs, err)"
      by (simp add: copy_from_def)
    show ?thesis
    proof (cases "use_thread st")
      case True
      with str obtain ws0 where ev: "events st = Spawn tname columns # map PipeWrite ws0"
        unfolding streaming_def by auto
      from copy_from_finish_thread[OF True ev fin] show ?thesis by blast
    next
      case False
      with str have ev: "events st = []" unfolding streaming_def by simp
      from copy_from_finish_memory[OF False ev fin] show ?thesis by blast
    qed
  qed
qed

section \<open>Threshold and teardown\<close>

lemma text_escape_plain: "text_escape (replicate n 97) = replicate n 97"
  unfolding text_escape_charwise by (induction n) (simp_all add: esc_def)

lemma encode_utf_8_plain: "encode utf_8 (replicate n 97) = Inr (replicate n 97)"
  by (induction n) (simp_all add: utf_8_def)

lemma encode_row_plain:
  "encode_row utf_8 [Text] [PStr (replicate n 97)] lz = Inr (replicate n 97, lz)"
  by (simp add: encode_row_def text_escape_plain encode_utf_8_plain)

lemma encode_row_None: "encode_row utf_8 [Text] [PNone] lz = Inl TypeError"
  by (simp add: encode_row_def)

lemma write_chunks_one:
  "write_chunks (replicate 65536 97 @ [10]) 0 = ([replicate 65536 97], 65536)"
  by (subst write_chunks.simps, simp add: slice_def, subst write_chunks.simps, simp)

lemma write_chunks_exact:
  "write_chunks (replicate 65535 97 @ [10]) 0 = ([replicate 65535 97 @ [10]], 65536)"
  by (subst write_chunks.simps, simp add: slice_def, subst write_chunks.simps, simp)

lemma encode_ascii_plain: "encode ascii (replicate n 97) = Inr (replicate n 97)"
  by (induction n) (simp_all add: ascii_def)

lemma encode_row_ascii_plain:
  "encode_row ascii [Text] [PStr (replicate n 97)] lz = Inr (replicate n 97, lz)"
  by (simp add: encode_row_def text_escape_plain encode_ascii_plain)

lemma encode_row_ascii_error: "encode_row ascii [Text] [PStr [233]] lz = Inl UnicodeEncodeError"
  by (simp add: encode_row_def text_escape_def ascii_def)

text \<open>
  C4, as stated, fails: when something raises after the helper thread was started, the
  exception leaves \<open>copy_from\<close> and none of the three steps is taken. In both runs below
  the first row fills the buffer beyond the threshold; in the first run the second row
  holds \<^verbatim>\<open>None\<close> for a strict text column and the encoder raises, in the second run it
  holds a character the connection's codec cannot encode and \<^verbatim>\<open>str.encode\<close> raises.
\<close>

theorem no_teardown_after_error:
  "copy_from [] [[PStr (replicate 65536 97)], [PNone]] [] (\<lambda>x. x) [Text] utf_8
     = ([Spawn [] [], PipeWrite (replicate 65536 97)], Some TypeError)
   \<and> copy_from [] [[PStr (replicate 65536 97)], [PStr [233]]] [] (\<lambda>x. x) [Text] ascii
     = ([Spawn [] [], PipeWrite (replicate 65536 97)], Some UnicodeEncodeError)"
  by (simp add: copy_from_def copy_from_step_def cf_init_def encode_row_plain encode_row_None
      encode_row_ascii_plain encode_row_ascii_error write_chunks_one Let_def)

lemma run_with_thread:
  "copy_from [] [[PStr (replicate 65536 97)]] [] (\<lambda>x. x) [Text] utf_8
     = ([Spawn [] [], PipeWrite (replicate 65536 97), PipeWrite [10], CloseWrite, Join, CloseRead], None)"
  by (simp add: copy_from_def copy_from_step_def cf_init_def encode_row_plain
      write_chunks_one copy_from_finish_def Let_def)

text \<open>
  C4, amended: every run of \<open>copy_from\<close> that started the helper thread and raised
  nothing (no encoder, no formatting, no \<^verbatim>\<open>str.encode\<close>, no \<open>write_lazy\<close> and no writer
  raised) ends with exactly the three steps, in the order close the write end, join the
  thread, close the read end, and none of the three happens earlier; a run that raised
  took none of the three steps; and in every run, raising or not, the read end is closed
  only as the last of these three steps, after the join.
\<close>

theorem teardown_order:
  assumes run: "copy_from tname data columns get encs encoding = (evs, err)"
  shows "(Spawn tname columns \<in> set evs \<and> err = None
            \<longrightarrow> (\<exists>pre. evs = pre @ [CloseWrite, Join, CloseRead]
                   \<and> CloseWrite \<notin> set pre \<and> Join \<notin> set pre \<and> CloseRead \<notin> set pre))
       \<and> (err \<noteq> None \<longrightarrow> CloseWrite \<notin> set evs \<and> Join \<notin> set evs \<and> CloseRead \<notin> set evs)
       \<and> (CloseRead \<in> set evs
            \<longrightarrow> (\<exists>pre. evs = pre @ [CloseWrite, Join, CloseRead]
                   \<and> CloseWrite \<notin> set pre \<and> Join \<notin> set pre \<and> CloseRead \<notin> set pre))"
proof -
  from copy_from_events[OF run] consider
    (thread) ws where "evs = Spawn tname columns # map PipeWrite ws
                  @ (if err = None then [CloseWrite, Join, CloseRead] else [])"
    | (nothing) "evs = []"
    | (memory) bs where "evs = [SinkCopy bs tname columns]"
    by blast
  then show ?thesis
  proof cases
    case thread
    let ?pre = "Spawn tname columns # map PipeWrite ws"
    have pre: "CloseWrite \<notin> set ?pre \<and> Join \<notin> set ?pre \<and> CloseRead \<notin> set ?pre" by auto
    show ?thesis
    proof (cases "err = None")
      case True
      with thread have "evs = ?pre @ [CloseWrite, Join, CloseRead]" by simp
      with pre True show ?thesis by blast
    next
      case False
      with thread have "evs = ?pre" by simp
      with False show ?thesis by auto
    qed
  next
    case nothing
    then show ?thesis by simp
  next
    case memory
    then show ?thesis by simp
  qed
qed

lemma run_with_error:
  "copy_from [] [[PStr (replicate 65536 97)], [PNone]] [] (\<lambda>x. x) [Text] utf_8
     = ([Spawn [] [], PipeWrite (replicate 65536 97)], Some TypeError)"
  by (simp add: copy_from_def copy_from_step_def cf_init_def encode_row_plain encode_row_None
      write_chunks_one Let_def)

theorem teardown_order_witness:
  "copy_from [] [[PStr (replicate 65536 97)]] [] (\<lambda>x. x) [Text] utf_8
     = ([Spawn [] [], PipeWrite (replicate 65536 97), PipeWrite [10], CloseWrite, Join, CloseRead], None)
   \<and> (\<exists>pre. fst (copy_from [] [[PStr (replicate 65536 97)]] [] (\<lambda>x. x) [Text] utf_8)
               = pre @ [CloseWrite, Join, CloseRead]
             \<and> CloseWrite \<notin> set pre \<and> Join \<notin> set pre \<and> CloseRead \<notin> set pre)
   \<and> snd (copy_from [] [[PStr (replicate 65536 97)], [PNone]] [] (\<lambda>x. x) [Text] utf_8) \<noteq> None
   \<and> CloseRead \<notin> set (fst (copy_from [] [[PStr (replicate 65536 97)], [PNone]] [] (\<lambda>x. x) [Text] utf_8))"
  using teardown_order[OF run_with_thread] teardown_order[OF run_with_error]
    run_with_thread run_with_error
  by simp



















end
